theory Spec2Isabelle
  imports Complex_Main
begin

section \<open>ShapeTracker: views over a flat buffer\<close>

text \<open>
  A shallow embedding of \<^verbatim>\<open>tinygrad/shape/__init__.py\<close>. Python integers are
  \<^typ>\<open>int\<close>, tuples are lists, and every raise of the source is a value \<open>Inl e\<close> of
  the result type. Methods that mutate the tracker and return it take the tracker and
  return the new one.
\<close>

subsection \<open>Errors\<close>

datatype error = AssertionError | IndexError | ZeroDivisionError | NotImplementedError

type_synonym 'a result = "error + 'a"

subsection \<open>Helpers\<close>

text \<open>\<^verbatim>\<open>prod\<close> of \<^verbatim>\<open>tinygrad.helpers\<close>: the product of a tuple of integers.\<close>

definition prod :: "int list \<Rightarrow> int" where
  "prod xs = foldl (\<lambda>a b. a * b) 1 xs"

text \<open>
  \<^verbatim>\<open>to_shape_strides\<close>: the loop body rewrites the last pair of \<^verbatim>\<open>ret\<close> or appends a
  new one; \<^verbatim>\<open>ret\<close> is never empty inside the loop.
\<close>

fun to_shape_strides_loop :: "(int \<times> int) list \<Rightarrow> (int \<times> int) list \<Rightarrow> (int \<times> int) list" where
  "to_shape_strides_loop ret [] = ret"
| "to_shape_strides_loop ret ((sh, st) # rest) =
     (if (st \<noteq> 0 \<and> snd (last ret) = sh * st) \<or> fst (last ret) = 1 \<or> (st = 0 \<and> snd (last ret) = 0)
      then to_shape_strides_loop (butlast ret @ [(fst (last ret) * sh, st)]) rest
      else to_shape_strides_loop (ret @ [(sh, st)]) rest)"

definition to_shape_strides :: "int list \<Rightarrow> int list \<Rightarrow> (int \<times> int) list result" where
  "to_shape_strides shape strides =
     (if length shape \<noteq> length strides then Inl AssertionError
      else case zip shape strides of
             [] \<Rightarrow> Inr []
           | p # rest \<Rightarrow> Inr (to_shape_strides_loop [p] rest))"

text \<open>
  \<^verbatim>\<open>strides_for_shape\<close>: starts from \<^verbatim>\<open>[1]\<close> and walks \<^verbatim>\<open>shape[::-1][:-1]\<close>, so the
  result of the empty shape is \<^verbatim>\<open>(1,)\<close>.
\<close>

definition strides_for_shape :: "int list \<Rightarrow> int list" where
  "strides_for_shape shape = foldl (\<lambda>strides d. (d * hd strides) # strides) [1] (butlast (rev shape))"

subsection \<open>View\<close>

record View =
  shape :: "int list"
  strides :: "int list"
  offset :: int
  shape_strides :: "(int \<times> int) list"
  contiguous :: bool

text \<open>
  \<^verbatim>\<open>View.__init__\<close>: the strides are zipped with the shape (and cut to its length) and
  zeroed where the dimension is 1; \<^verbatim>\<open>to_shape_strides\<close> then asserts equal lengths.
\<close>

definition View_init :: "int list \<Rightarrow> int list \<Rightarrow> int \<Rightarrow> View result" where
  "View_init shp strds off =
     (let strds' = map (\<lambda>(stride, sh). if sh \<noteq> 1 then stride else 0) (zip strds shp)
      in case to_shape_strides shp strds' of
           Inl e \<Rightarrow> Inl e
         | Inr ss \<Rightarrow>
             Inr \<lparr> shape = shp, strides = strds', offset = off, shape_strides = ss,
                   contiguous = (off = 0 \<and>
                     list_all (\<lambda>(s, s1, s2). s1 = s2 \<or> s = 1)
                       (zip shp (zip strds' (strides_for_shape shp)))) \<rparr>)"

text \<open>A view is one the constructor can return.\<close>

definition view_ok :: "View \<Rightarrow> bool" where
  "view_ok v = (View_init (shape v) (strides v) (offset v) = Inr v)"

subsection \<open>ZeroView\<close>

record ZeroView =
  old_shape :: "int list"
  arg :: "(int \<times> int) list"
  shape_z :: "int list"
  strides_z :: "int list"
  contiguous_z :: bool
  offset_z :: int

definition ZeroView_init :: "int list \<Rightarrow> (int \<times> int) list \<Rightarrow> ZeroView" where
  "ZeroView_init old a =
     (let shp = map (\<lambda>(x, y). y - x) a
      in \<lparr> old_shape = old, arg = a, shape_z = shp, strides_z = strides_for_shape shp,
           contiguous_z = False, offset_z = 0 \<rparr>)"

datatype ViewTypes = V View | Z ZeroView

fun vt_shape :: "ViewTypes \<Rightarrow> int list" where
  "vt_shape (V v) = shape v"
| "vt_shape (Z z) = shape_z z"

fun vt_strides :: "ViewTypes \<Rightarrow> int list" where
  "vt_strides (V v) = strides v"
| "vt_strides (Z z) = strides_z z"

fun vt_offset :: "ViewTypes \<Rightarrow> int" where
  "vt_offset (V v) = offset v"
| "vt_offset (Z z) = offset_z z"

fun vt_contiguous :: "ViewTypes \<Rightarrow> bool" where
  "vt_contiguous (V v) = contiguous v"
| "vt_contiguous (Z z) = contiguous_z z"

fun is_ZeroView :: "ViewTypes \<Rightarrow> bool" where
  "is_ZeroView (Z z) = True"
| "is_ZeroView (V v) = False"

definition view_from_shape :: "int list \<Rightarrow> View result" where
  "view_from_shape shp =
     (if length shp = 0 then Inl AssertionError else View_init shp (strides_for_shape shp) 0)"

subsection \<open>ShapeTracker\<close>

record ShapeTracker =
  views :: "ViewTypes list"

text \<open>\<^verbatim>\<open>ShapeTracker(shape)\<close>: a single identity view.\<close>

definition ShapeTracker_init :: "int list \<Rightarrow> ShapeTracker result" where
  "ShapeTracker_init shp =
     (case view_from_shape shp of Inl e \<Rightarrow> Inl e | Inr v \<Rightarrow> Inr \<lparr> views = [V v] \<rparr>)"

definition st_shape :: "ShapeTracker \<Rightarrow> int list" where
  "st_shape st = vt_shape (last (views st))"

definition st_strides :: "ShapeTracker \<Rightarrow> int list" where
  "st_strides st = vt_strides (last (views st))"

definition st_offset :: "ShapeTracker \<Rightarrow> int" where
  "st_offset st = vt_offset (last (views st))"

definition st_contiguous :: "ShapeTracker \<Rightarrow> bool" where
  "st_contiguous st = (length (views st) = 1 \<and> vt_contiguous (last (views st)))"

definition needs_valid :: "ShapeTracker \<Rightarrow> bool" where
  "needs_valid st = list_ex is_ZeroView (views st)"

text \<open>\<^verbatim>\<open>self.views[-1] = view\<close>.\<close>

definition set_top :: "ShapeTracker \<Rightarrow> View \<Rightarrow> ShapeTracker" where
  "set_top st v = st\<lparr> views := butlast (views st) @ [V v] \<rparr>"

text \<open>
  \<^verbatim>\<open>expand\<close>: the assertion and the new strides both run over
  \<^verbatim>\<open>zip(self.shape, new_shape)\<close>, which stops at the shorter tuple.
\<close>

definition expand :: "ShapeTracker \<Rightarrow> int list \<Rightarrow> ShapeTracker result" where
  "expand st new_shape =
     (if views st = [] then Inl IndexError
      else if \<not> list_all (\<lambda>(x, y). x = y \<or> x = 1) (zip (st_shape st) new_shape)
        then Inl AssertionError
      else case View_init new_shape
                  (map (\<lambda>(s, (x, y)). if x = y then s else 0)
                     (zip (st_strides st) (zip (st_shape st) new_shape)))
                  (st_offset st) of
             Inl e \<Rightarrow> Inl e
           | Inr v \<Rightarrow> Inr (set_top st v))"

text \<open>
  \<^verbatim>\<open>stride\<close>: \<^verbatim>\<open>(s+(abs(m)-1))//abs(m)\<close> divides by zero when a multiplier is 0.
\<close>

definition stride :: "ShapeTracker \<Rightarrow> int list \<Rightarrow> ShapeTracker result" where
  "stride st mul =
     (if views st = [] then Inl IndexError
      else if list_ex (\<lambda>(s, m). m = 0) (zip (st_shape st) mul) then Inl ZeroDivisionError
      else
        let strds = map (\<lambda>(z, m). z * m) (zip (st_strides st) mul);
            new_shape = map (\<lambda>(s, m). (s + (abs m - 1)) div abs m) (zip (st_shape st) mul);
            off = sum_list (map (\<lambda>(s, z, m). (s - 1) * z)
                    (filter (\<lambda>(s, z, m). m < 0) (zip (st_shape st) (zip (st_strides st) mul))))
        in case View_init new_shape strds (st_offset st + off) of
             Inl e \<Rightarrow> Inl e
           | Inr v \<Rightarrow> Inr (set_top st v))"

definition flip :: "ShapeTracker \<Rightarrow> int list \<Rightarrow> ShapeTracker result" where
  "flip st axis =
     stride st (map (\<lambda>i. if int i \<in> set axis then - 1 else 1) [0..<length (st_shape st)])"

subsection \<open>Symbolic expressions\<close>

text \<open>
  Modelled from the spec: the module \<^verbatim>\<open>tinygrad.shape.symbolic\<close> (\<^verbatim>\<open>Variable\<close>,
  \<^verbatim>\<open>NumNode\<close>, \<^verbatim>\<open>MulNode\<close> and the operators on nodes) is imported by the source but is
  not part of it. The nodes and constructors below follow sections 3 and 4.1 of the
  specification; \<^verbatim>\<open>min\<close> and \<^verbatim>\<open>max\<close> of a node are recomputed from its children.
\<close>

datatype Node =
    NumNode int
  | Variable string int int
  | MulNode Node int
  | DivNode Node int
  | ModNode Node int
  | SumNode "Node list"
  | AndNode "Node list"
  | LtNode Node int
  | GeNode Node int

text \<open>
  Modelled from the spec: the interval of a node. Division has \<open>[min//k, max//k]\<close>,
  modulo \<open>[0, k-1]\<close>; comparisons and conjunctions are 0/1-valued.
\<close>

fun bounds :: "Node \<Rightarrow> int \<times> int" where
  "bounds (NumNode c) = (c, c)"
| "bounds (Variable n lo hi) = (lo, hi)"
| "bounds (MulNode a b) =
     (if 0 \<le> b then (fst (bounds a) * b, snd (bounds a) * b)
      else (snd (bounds a) * b, fst (bounds a) * b))"
| "bounds (DivNode a b) = (fst (bounds a) div b, snd (bounds a) div b)"
| "bounds (ModNode a b) = (0, b - 1)"
| "bounds (SumNode xs) =
     (sum_list (map (\<lambda>x. fst (bounds x)) xs), sum_list (map (\<lambda>x. snd (bounds x)) xs))"
| "bounds (AndNode xs) = (0, 1)"
| "bounds (LtNode a b) = (0, 1)"
| "bounds (GeNode a b) = (0, 1)"

definition nmin :: "Node \<Rightarrow> int" where
  "nmin e = fst (bounds e)"

definition nmax :: "Node \<Rightarrow> int" where
  "nmax e = snd (bounds e)"

text \<open>
  Modelled from the spec: the value of an expression under an assignment of its
  variables. Division and modulo round towards minus infinity, as Python's do.
\<close>

fun eval :: "(string \<Rightarrow> int) \<Rightarrow> Node \<Rightarrow> int" where
  "eval env (NumNode c) = c"
| "eval env (Variable n lo hi) = env n"
| "eval env (MulNode a b) = eval env a * b"
| "eval env (DivNode a b) = eval env a div b"
| "eval env (ModNode a b) = eval env a mod b"
| "eval env (SumNode xs) = sum_list (map (eval env) xs)"
| "eval env (AndNode xs) = (if list_all (\<lambda>x. eval env x \<noteq> 0) xs then 1 else 0)"
| "eval env (LtNode a b) = (if eval env a < b then 1 else 0)"
| "eval env (GeNode a b) = (if b \<le> eval env a then 1 else 0)"

text \<open>Modelled from the spec: \<open>num(c)\<close> and \<open>var(name, lo, hi)\<close>.\<close>

definition num :: "int \<Rightarrow> Node" where
  "num c = NumNode c"

definition var :: "string \<Rightarrow> int \<Rightarrow> int \<Rightarrow> Node" where
  "var name lo hi = (if lo < hi then Variable name lo hi else NumNode lo)"

text \<open>
  Modelled from the spec: \<open>mul(e, k)\<close> is \<open>Num(0)\<close> for \<open>k = 0\<close>, \<open>e\<close> for \<open>k = 1\<close>,
  distributes over a sum and composes with an inner multiplication.
\<close>

fun mul_node :: "Node \<Rightarrow> int \<Rightarrow> Node" where
  "mul_node (SumNode xs) k =
     (if k = 0 then NumNode 0 else if k = 1 then SumNode xs
      else SumNode (map (\<lambda>x. mul_node x k) xs))"
| "mul_node (MulNode x a) k =
     (if k = 0 then NumNode 0 else if k = 1 then MulNode x a else MulNode x (a * k))"
| "mul_node e k = (if k = 0 then NumNode 0 else if k = 1 then e else MulNode e k)"

text \<open>
  Modelled from the spec: \<open>sum(xs)\<close> flattens nested sums, groups like variables by
  coefficient, folds constants, drops zeros, and returns \<open>Num(0)\<close> on empty and the sole
  child of a singleton.
\<close>

fun flatten_sums :: "Node list \<Rightarrow> Node list" where
  "flatten_sums [] = []"
| "flatten_sums (SumNode ys # xs) = flatten_sums ys @ flatten_sums xs"
| "flatten_sums (x # xs) = x # flatten_sums xs"

fun var_term :: "Node \<Rightarrow> (Node \<times> int) option" where
  "var_term (Variable n lo hi) = Some (Variable n lo hi, 1)"
| "var_term (MulNode (Variable n lo hi) k) = Some (Variable n lo hi, k)"
| "var_term e = None"

fun is_NumNode :: "Node \<Rightarrow> bool" where
  "is_NumNode (NumNode c) = True"
| "is_NumNode e = False"

fun num_value :: "Node \<Rightarrow> int" where
  "num_value (NumNode c) = c"
| "num_value e = 0"

fun add_term :: "Node \<times> int \<Rightarrow> (Node \<times> int) list \<Rightarrow> (Node \<times> int) list" where
  "add_term (a, k) [] = [(a, k)]"
| "add_term (a, k) ((b, j) # ts) =
     (if a = b then (b, j + k) # ts else (b, j) # add_term (a, k) ts)"

definition group_vars :: "Node list \<Rightarrow> (Node \<times> int) list" where
  "group_vars xs = foldl (\<lambda>ts t. add_term t ts) [] (List.map_filter var_term xs)"

definition sum_nodes :: "Node list \<Rightarrow> Node" where
  "sum_nodes xs =
     (let flat = flatten_sums xs;
          c = sum_list (map num_value (filter is_NumNode flat));
          vars = map (\<lambda>(v, k). mul_node v k) (filter (\<lambda>(v, k). k \<noteq> 0) (group_vars flat));
          others = filter (\<lambda>x. \<not> is_NumNode x \<and> var_term x = None) flat;
          nodes = vars @ others @ (if c = 0 then [] else [NumNode c])
      in case nodes of [] \<Rightarrow> NumNode 0 | [x] \<Rightarrow> x | _ \<Rightarrow> SumNode nodes)"

text \<open>
  Modelled from the spec: \<open>div(e, k)\<close> and \<open>mod(e, k)\<close>. A divisor \<open>k \<le> 0\<close> is fatal.
  A summand is a multiple of \<open>k\<close> when it is a constant or a coefficient divisible by \<open>k\<close>.
\<close>

fun multiple_of :: "int \<Rightarrow> Node \<Rightarrow> bool" where
  "multiple_of k (NumNode c) = (c mod k = 0)"
| "multiple_of k (MulNode a b) = (b mod k = 0)"
| "multiple_of k e = False"

fun reduce_by :: "int \<Rightarrow> Node \<Rightarrow> Node" where
  "reduce_by k (NumNode c) = NumNode (c div k)"
| "reduce_by k (MulNode a b) = mul_node a (b div k)"
| "reduce_by k e = e"

definition div_node :: "Node \<Rightarrow> int \<Rightarrow> Node result" where
  "div_node e k =
     (if k \<le> 0 then Inl AssertionError
      else if nmax e < k \<and> 0 \<le> nmin e then Inr (NumNode 0)
      else case e of
             SumNode xs \<Rightarrow>
               if list_all (multiple_of k) xs then Inr (sum_nodes (map (reduce_by k) xs))
               else Inr (DivNode e k)
           | _ \<Rightarrow> Inr (DivNode e k))"

fun mod_node :: "Node \<Rightarrow> int \<Rightarrow> Node result" where
  "mod_node (SumNode xs) k =
     (if k \<le> 0 then Inl AssertionError
      else if nmax (SumNode xs) < k \<and> 0 \<le> nmin (SumNode xs) then Inr (SumNode xs)
      else if list_all (multiple_of k) xs then Inr (NumNode 0)
      else Inr (ModNode (SumNode xs) k))"
| "mod_node (ModNode e k2) k =
     (if k \<le> 0 then Inl AssertionError
      else if nmax (ModNode e k2) < k \<and> 0 \<le> nmin (ModNode e k2) then Inr (ModNode e k2)
      else if k \<le> k2 \<and> k2 mod k = 0 then mod_node e k
      else Inr (ModNode (ModNode e k2) k))"
| "mod_node e k =
     (if k \<le> 0 then Inl AssertionError
      else if nmax e < k \<and> 0 \<le> nmin e then Inr e
      else Inr (ModNode e k))"

text \<open>Modelled from the spec: \<open>lt(e, k)\<close> and \<open>ge(e, k)\<close> fold when the bounds decide.\<close>

definition lt_node :: "Node \<Rightarrow> int \<Rightarrow> Node" where
  "lt_node e k = (if nmax e < k then NumNode 1 else if k \<le> nmin e then NumNode 0 else LtNode e k)"

definition ge_node :: "Node \<Rightarrow> int \<Rightarrow> Node" where
  "ge_node e k = (if k \<le> nmin e then NumNode 1 else if nmax e < k then NumNode 0 else GeNode e k)"

text \<open>
  Modelled from the spec: \<open>ands(xs)\<close> flattens, drops \<open>Num(1)\<close>, is \<open>Num(0)\<close> when a
  conjunct is \<open>Num(0)\<close>, and unwraps a singleton; the empty conjunction is \<open>Num(1)\<close>
  (the predicate that is always 1).
\<close>

fun flatten_ands :: "Node list \<Rightarrow> Node list" where
  "flatten_ands [] = []"
| "flatten_ands (AndNode ys # xs) = flatten_ands ys @ flatten_ands xs"
| "flatten_ands (x # xs) = x # flatten_ands xs"

definition ands :: "Node list \<Rightarrow> Node" where
  "ands xs =
     (let nodes = filter (\<lambda>x. x \<noteq> NumNode 1) (flatten_ands xs)
      in if NumNode 0 \<in> set nodes then NumNode 0
         else case nodes of [] \<Rightarrow> NumNode 1 | [x] \<Rightarrow> x | _ \<Rightarrow> AndNode nodes)"

subsection \<open>Index expressions of the views\<close>

text \<open>
  \<^verbatim>\<open>View.expr_node\<close>: the loop walks \<^verbatim>\<open>shape_strides[::-1]\<close>, appending
  \<^verbatim>\<open>((idx//acc)%d)*s\<close> for every pair with \<^verbatim>\<open>d != 1 and s != 0\<close>. The default index
  is \<^verbatim>\<open>Variable('idx', 0, prod(self.shape))\<close>.
\<close>

fun View_expr_node_loop :: "Node \<Rightarrow> (int \<times> int) list \<Rightarrow> Node list \<Rightarrow> int \<Rightarrow> Node list result" where
  "View_expr_node_loop idx [] ret acc = Inr ret"
| "View_expr_node_loop idx ((d, s) # rest) ret acc =
     (if d \<noteq> 1 \<and> s \<noteq> 0 then
        (case div_node idx acc of
           Inl e \<Rightarrow> Inl e
         | Inr q \<Rightarrow>
             (case mod_node q d of
                Inl e \<Rightarrow> Inl e
              | Inr m \<Rightarrow> View_expr_node_loop idx rest (ret @ [mul_node m s]) (acc * d)))
      else View_expr_node_loop idx rest ret (acc * d))"

definition View_default_idx :: "View \<Rightarrow> Node" where
  "View_default_idx v = var ''idx'' 0 (prod (shape v))"

definition View_expr_node :: "View \<Rightarrow> Node option \<Rightarrow> Node result" where
  "View_expr_node v idx_opt =
     (let idx = (case idx_opt of None \<Rightarrow> View_default_idx v | Some i \<Rightarrow> i)
      in case View_expr_node_loop idx (rev (shape_strides v)) [num (offset v)] 1 of
           Inl e \<Rightarrow> Inl e
         | Inr ret \<Rightarrow> Inr (sum_nodes ret))"

text \<open>\<^verbatim>\<open>View.expr_idxs\<close>: one variable per dimension, named by \<^verbatim>\<open>idxs\<close>.\<close>

definition View_expr_idxs :: "View \<Rightarrow> string list \<Rightarrow> int \<Rightarrow> Node" where
  "View_expr_idxs v idxs off =
     sum_nodes (num (offset v + off) #
       map (\<lambda>(idx, sh, st). mul_node (var idx 0 (sh - 1)) st)
         (filter (\<lambda>(idx, sh, st). sh \<noteq> 1 \<and> st \<noteq> 0) (zip idxs (zip (shape v) (strides v)))))"

text \<open>
  \<^verbatim>\<open>ZeroView.expr_node\<close>: \<^verbatim>\<open>base = ((idx//acc) % ns) + x\<close> is computed for every
  dimension; the guards \<^verbatim>\<open>base >= 0\<close> and \<^verbatim>\<open>base < s\<close> are added where the window
  leaves the old shape. The default index is
  \<^verbatim>\<open>Variable('idx', 0, prod([y-x for x,y in self.arg]))\<close>.
\<close>

fun ZeroView_expr_node_loop ::
  "Node \<Rightarrow> (int \<times> int \<times> int \<times> int) list \<Rightarrow> Node list \<Rightarrow> int \<Rightarrow> Node list result" where
  "ZeroView_expr_node_loop idx [] expr acc = Inr expr"
| "ZeroView_expr_node_loop idx ((s, ns, x, y) # rest) expr acc =
     (case div_node idx acc of
        Inl e \<Rightarrow> Inl e
      | Inr q \<Rightarrow>
          (case mod_node q ns of
             Inl e \<Rightarrow> Inl e
           | Inr m \<Rightarrow>
               (let base = sum_nodes [m, num x]
                in ZeroView_expr_node_loop idx rest
                     (expr @ (if x < 0 then [ge_node base 0] else [])
                           @ (if y > s then [lt_node base s] else []))
                     (acc * ns))))"

definition ZeroView_default_idx :: "ZeroView \<Rightarrow> Node" where
  "ZeroView_default_idx z = var ''idx'' 0 (prod (map (\<lambda>(x, y). y - x) (arg z)))"

definition ZeroView_expr_node :: "ZeroView \<Rightarrow> Node option \<Rightarrow> Node option \<Rightarrow> Node result" where
  "ZeroView_expr_node z idx_opt valid_opt =
     (let idx = (case idx_opt of None \<Rightarrow> ZeroView_default_idx z | Some i \<Rightarrow> i);
          expr = (case valid_opt of None \<Rightarrow> [] | Some valid \<Rightarrow> [valid])
      in case ZeroView_expr_node_loop idx
                (rev (zip (old_shape z) (zip (shape_z z) (arg z)))) expr 1 of
           Inl e \<Rightarrow> Inl e
         | Inr ex \<Rightarrow> Inr (ands ex))"

text \<open>\<^verbatim>\<open>ShapeTracker._expr_idx\<close>: walks \<^verbatim>\<open>self.views[0:-1][::-1]\<close>.\<close>

fun expr_idx_loop :: "ViewTypes list \<Rightarrow> Node \<Rightarrow> Node \<Rightarrow> (Node \<times> Node) result" where
  "expr_idx_loop [] idx valid = Inr (idx, valid)"
| "expr_idx_loop (Z z # vs) idx valid =
     (case ZeroView_expr_node z (Some idx) (Some valid) of
        Inl e \<Rightarrow> Inl e
      | Inr valid' \<Rightarrow> expr_idx_loop vs idx valid')"
| "expr_idx_loop (V v # vs) idx valid =
     (case View_expr_node v (Some idx) of
        Inl e \<Rightarrow> Inl e
      | Inr idx' \<Rightarrow> expr_idx_loop vs idx' valid)"

definition expr_idx :: "ShapeTracker \<Rightarrow> Node \<Rightarrow> (Node \<times> Node) result" where
  "expr_idx st idx = expr_idx_loop (rev (butlast (views st))) idx (num 1)"

text \<open>
  \<^verbatim>\<open>ShapeTracker.expr_idxs\<close>: the default names are \<^verbatim>\<open>idx0, idx1, ...\<close>; a ZeroView on
  top raises \<^verbatim>\<open>NotImplementedError\<close>.
\<close>

fun string_of_nat :: "nat \<Rightarrow> string" where
  "string_of_nat n =
     (if n < 10 then [char_of (48 + n)] else string_of_nat (n div 10) @ [char_of (48 + n mod 10)])"

definition default_idxs :: "ShapeTracker \<Rightarrow> string list" where
  "default_idxs st = map (\<lambda>i. ''idx'' @ string_of_nat i) [0..<length (st_shape st)]"

definition expr_idxs :: "ShapeTracker \<Rightarrow> int \<Rightarrow> string list option \<Rightarrow> (Node \<times> Node) result" where
  "expr_idxs st off idxs_opt =
     (let idxs = (case idxs_opt of None \<Rightarrow> default_idxs st | Some xs \<Rightarrow> xs)
      in case views st of
           [] \<Rightarrow> Inl IndexError
         | _ \<Rightarrow> (case last (views st) of
                   Z z \<Rightarrow> Inl NotImplementedError
                 | V v \<Rightarrow> expr_idx st (View_expr_idxs v idxs off)))"

text \<open>
  \<^verbatim>\<open>ShapeTracker.expr_node\<close>: the index variable is
  \<^verbatim>\<open>Variable(idx, 0, prod(self.shape)-1)\<close>.
\<close>

definition ShapeTracker_default_idx :: "ShapeTracker \<Rightarrow> string \<Rightarrow> Node" where
  "ShapeTracker_default_idx st idx = var idx 0 (prod (st_shape st) - 1)"

definition expr_node :: "ShapeTracker \<Rightarrow> string \<Rightarrow> (Node \<times> Node) result" where
  "expr_node st idx =
     (case views st of
        [] \<Rightarrow> Inl IndexError
      | _ \<Rightarrow> (case (case last (views st) of
                      V v \<Rightarrow> View_expr_node v (Some (ShapeTracker_default_idx st idx))
                    | Z z \<Rightarrow> ZeroView_expr_node z (Some (ShapeTracker_default_idx st idx)) None) of
                Inl e \<Rightarrow> Inl e
              | Inr e0 \<Rightarrow> expr_idx st e0))"

subsection \<open>Movement operations that build index expressions\<close>

text \<open>
  \<^verbatim>\<open>shrink\<close>: asserts one pair per dimension, replaces the top view, and appends the
  ZeroView together with a stock view of the new shape when the minimum of the ZeroView's
  predicate is 0. \<^verbatim>\<open>self.strides[i]\<close> raises when the strides are shorter than
  \<^verbatim>\<open>arg\<close>.
\<close>

definition shrink :: "ShapeTracker \<Rightarrow> (int \<times> int) list \<Rightarrow> ShapeTracker result" where
  "shrink st a =
     (if views st = [] then Inl IndexError
      else if length a \<noteq> length (st_shape st) then Inl AssertionError
      else if length (st_strides st) < length a then Inl IndexError
      else
        let off = sum_list (map (\<lambda>(z, (x, y)). z * x) (zip (st_strides st) a));
            zeroview = ZeroView_init (st_shape st) a
        in case View_init (map (\<lambda>(x, y). y - x) a) (st_strides st) (st_offset st + off) of
             Inl e \<Rightarrow> Inl e
           | Inr v \<Rightarrow>
               (let st1 = set_top st v
                in case ZeroView_expr_node zeroview None None of
                     Inl e \<Rightarrow> Inl e
                   | Inr valid \<Rightarrow>
                       if nmin valid = 0 then
                         (case View_init (st_shape st1) (strides_for_shape (st_shape st1)) 0 of
                            Inl e \<Rightarrow> Inl e
                          | Inr w \<Rightarrow> Inr (st1\<lparr> views := views st1 @ [Z zeroview, V w] \<rparr>))
                       else Inr st1))"

text \<open>\<^verbatim>\<open>pad\<close>: asserts non-negative amounts, one pair per dimension, and calls \<^verbatim>\<open>shrink\<close>.\<close>

definition pad :: "ShapeTracker \<Rightarrow> (int \<times> int) list \<Rightarrow> ShapeTracker result" where
  "pad st a =
     (if views st = [] then Inl IndexError
      else if \<not> (list_all (\<lambda>(b, e). 0 \<le> b \<and> 0 \<le> e) a \<and> length a = length (st_shape st))
        then Inl AssertionError
      else shrink st (map (\<lambda>(s, (b, e)). (- b, s + e)) (zip (st_shape st) a)))"

text \<open>\<^verbatim>\<open>permute\<close>.\<close>

definition permute :: "ShapeTracker \<Rightarrow> int list \<Rightarrow> ShapeTracker result" where
  "permute st axis =
     (if views st = [] then Inl IndexError
      else if \<not> list_all (\<lambda>x. 0 \<le> x \<and> x < int (length (st_shape st))) axis then Inl AssertionError
      else if \<not> (distinct axis \<and> length axis = length (st_shape st)) then Inl AssertionError
      else if \<not> list_all (\<lambda>x. x < int (length (st_strides st))) axis then Inl IndexError
      else case View_init (map (\<lambda>a. st_shape st ! nat a) axis)
                  (map (\<lambda>a. st_strides st ! nat a) axis) (st_offset st) of
             Inl e \<Rightarrow> Inl e
           | Inr v \<Rightarrow> Inr (set_top st v))"

text \<open>
  \<^verbatim>\<open>reshape\<close>. The factorisation loop consumes \<^verbatim>\<open>new_shape\<close> against the merged
  dimensions; when they are used up, the rest of \<^verbatim>\<open>new_shape\<close> must be ones.
\<close>

fun reshape_ones :: "int list \<Rightarrow> int list \<Rightarrow> int list result" where
  "reshape_ones [] old_strides = Inr []"
| "reshape_ones (x # xs) old_strides =
     (if x = 1 then (case reshape_ones xs old_strides of Inl e \<Rightarrow> Inl e | Inr r \<Rightarrow> Inr (0 # r))
      else (case old_strides of
              [] \<Rightarrow> Inl IndexError
            | y # ys \<Rightarrow> (case reshape_ones xs ys of Inl e \<Rightarrow> Inl e | Inr r \<Rightarrow> Inr (y # r))))"

fun reshape_loop ::
  "int list \<Rightarrow> int \<Rightarrow> int \<Rightarrow> (int \<times> int) list \<Rightarrow> int list \<Rightarrow> int list result" where
  "reshape_loop [] curr_dim curr_stride min_shape_strides new_strides = Inr new_strides"
| "reshape_loop (s # rest) curr_dim curr_stride min_shape_strides new_strides =
     (if curr_dim mod s = 0 then
        (let curr_dim' = curr_dim div s;
             new_strides' = new_strides @ [curr_stride * curr_dim']
         in if curr_dim' = 1 then
              (case min_shape_strides of
                 [] \<Rightarrow> (if list_all (\<lambda>x. x = 1) rest
                        then Inr (new_strides' @ map (\<lambda>x. 1) rest)
                        else Inl AssertionError)
               | (d, st) # mss \<Rightarrow> reshape_loop rest d st mss new_strides')
            else reshape_loop rest curr_dim' curr_stride min_shape_strides new_strides')
      else Inr new_strides)"

definition reshape :: "ShapeTracker \<Rightarrow> int list \<Rightarrow> ShapeTracker result" where
  "reshape st new_shape =
     (if views st = [] then Inl IndexError
      else if st_shape st = new_shape then Inr st
      else if \<not> list_all (\<lambda>x. x \<noteq> 0) new_shape then Inl AssertionError
      else if prod (st_shape st) \<noteq> prod new_shape then Inl AssertionError
      else if filter (\<lambda>x. x \<noteq> 1) (st_shape st) = filter (\<lambda>x. x \<noteq> 1) new_shape then
        (case reshape_ones new_shape
                (map snd (filter (\<lambda>(x, y). x \<noteq> 1) (zip (st_shape st) (st_strides st)))) of
           Inl e \<Rightarrow> Inl e
         | Inr new_strides_tuple \<Rightarrow>
             (case View_init new_shape new_strides_tuple (st_offset st) of
                Inl e \<Rightarrow> Inl e
              | Inr v \<Rightarrow> Inr (set_top st v)))
      else
        (case to_shape_strides (st_shape st) (st_strides st) of
           Inl e \<Rightarrow> Inl e
         | Inr [] \<Rightarrow> Inl IndexError
         | Inr ((curr_dim, curr_stride) # min_shape_strides) \<Rightarrow>
             (case reshape_loop new_shape curr_dim curr_stride min_shape_strides [] of
                Inl e \<Rightarrow> Inl e
              | Inr new_strides \<Rightarrow>
                  if length new_shape = length new_strides then
                    (case View_init new_shape new_strides (st_offset st) of
                       Inl e \<Rightarrow> Inl e
                     | Inr v \<Rightarrow> Inr (set_top st v))
                  else
                    (case View_init new_shape (strides_for_shape new_shape) 0 of
                       Inl e \<Rightarrow> Inl e
                     | Inr view \<Rightarrow>
                         if st_contiguous st then Inr (set_top st view)
                         else Inr (st\<lparr> views := views st @ [V view] \<rparr>)))))"

text \<open>
  \<^verbatim>\<open>simplify\<close>: every dimension of the top view is probed through the view below; the
  loop stops at the first dimension that is neither the constant 0, a variable, nor a
  variable times a constant.
\<close>

fun simplify_probe :: "View \<Rightarrow> (int \<times> int) list \<Rightarrow> int list \<Rightarrow> int list result" where
  "simplify_probe v2 [] new_strides = Inr new_strides"
| "simplify_probe v2 ((s, st) # rest) new_strides =
     (case View_expr_node v2 (Some (mul_node (var ''idx'' 0 (s - 1)) st)) of
        Inl e \<Rightarrow> Inl e
      | Inr this_dim \<Rightarrow>
          (case this_dim of
             NumNode b \<Rightarrow>
               if b = 0 then simplify_probe v2 rest (new_strides @ [0]) else Inr new_strides
           | Variable n lo hi \<Rightarrow> simplify_probe v2 rest (new_strides @ [1])
           | MulNode a b \<Rightarrow>
               (case a of
                  Variable n lo hi \<Rightarrow> simplify_probe v2 rest (new_strides @ [b])
                | _ \<Rightarrow> Inr new_strides)
           | _ \<Rightarrow> Inr new_strides))"

text \<open>
  One round of \<^verbatim>\<open>simplify\<close>: \<open>Inr (Some st')\<close> when the top two views were replaced by
  one, \<open>Inr None\<close> when nothing changed.
\<close>

definition simplify_step :: "ShapeTracker \<Rightarrow> ShapeTracker option result" where
  "simplify_step st =
     (if 2 \<le> length (views st) then
        (case views st ! (length (views st) - 2) of
           Z z \<Rightarrow> Inr None
         | V v2 \<Rightarrow>
             if st_offset st = 0 then
               (case simplify_probe v2 (zip (st_shape st) (st_strides st)) [] of
                  Inl e \<Rightarrow> Inl e
                | Inr new_strides \<Rightarrow>
                    if length new_strides = length (st_strides st) then
                      (case View_init (st_shape st) new_strides 0 of
                         Inl e \<Rightarrow> Inl e
                       | Inr v \<Rightarrow>
                           Inr (Some (st\<lparr> views := take (length (views st) - 2) (views st) @ [V v] \<rparr>)))
                    else Inr None)
             else Inr None)
      else Inr None)"

function simplify :: "ShapeTracker \<Rightarrow> ShapeTracker result" where
  "simplify st =
     (case simplify_step st of
        Inl e \<Rightarrow> Inl e
      | Inr None \<Rightarrow> Inr st
      | Inr (Some st') \<Rightarrow> simplify st')"
  by pat_completeness auto
termination
proof (relation "measure (\<lambda>st. length (views st))")
  show "wf (measure (\<lambda>st. length (views st)))" by simp
next
  fix st x2 st'
  assume "simplify_step st = Inr x2" "x2 = Some st'"
  then show "(st', st) \<in> measure (\<lambda>st. length (views st))"
    by (auto simp: simplify_step_def split: if_splits ViewTypes.splits sum.splits)
qed

text \<open>The number of self-calls \<^verbatim>\<open>simplify\<close> makes before it returns.\<close>

function simplify_depth :: "ShapeTracker \<Rightarrow> nat" where
  "simplify_depth st =
     (case simplify_step st of
        Inl e \<Rightarrow> 0
      | Inr None \<Rightarrow> 0
      | Inr (Some st') \<Rightarrow> Suc (simplify_depth st'))"
  by pat_completeness auto
termination
proof (relation "measure (\<lambda>st. length (views st))")
  show "wf (measure (\<lambda>st. length (views st)))" by simp
next
  fix st x2 st'
  assume "simplify_step st = Inr x2" "x2 = Some st'"
  then show "(st', st) \<in> measure (\<lambda>st. length (views st))"
    by (auto simp: simplify_step_def split: if_splits ViewTypes.splits sum.splits)
qed

subsection \<open>Chaining and concrete assignments\<close>

text \<open>
  Method chaining, \<^verbatim>\<open>st.op1(a).op2(b)\<close>: the next operation runs on the tracker the
  previous one returned, and an error ends the chain.
\<close>

definition then_op ::
  "ShapeTracker result \<Rightarrow> (ShapeTracker \<Rightarrow> 'a \<Rightarrow> ShapeTracker result) \<Rightarrow> 'a \<Rightarrow> ShapeTracker result" where
  "then_op r f x = (case r of Inl e \<Rightarrow> Inl e | Inr st \<Rightarrow> f st x)"

text \<open>A concrete assignment of index variables, given as name/value pairs (0 elsewhere).\<close>

definition assign :: "(string \<times> int) list \<Rightarrow> string \<Rightarrow> int" where
  "assign ps n = (case map_of ps n of None \<Rightarrow> 0 | Some c \<Rightarrow> c)"

subsection \<open>Auxiliary predicates\<close>

text \<open>A guard that the bounds could not decide in favour of the index.\<close>

fun open_guard :: "Node \<Rightarrow> bool" where
  "open_guard (NumNode c) = (c = 0)"
| "open_guard (GeNode a b) = True"
| "open_guard (LtNode a b) = True"
| "open_guard e = False"

text \<open>
  An expression is well formed under an assignment when every divisor is positive and
  every variable lies within its declared bounds.
\<close>

fun node_ok :: "(string \<Rightarrow> int) \<Rightarrow> Node \<Rightarrow> bool" where
  "node_ok env (NumNode c) = True"
| "node_ok env (Variable n lo hi) = (lo \<le> env n \<and> env n \<le> hi)"
| "node_ok env (MulNode a b) = node_ok env a"
| "node_ok env (DivNode a b) = (0 < b \<and> node_ok env a)"
| "node_ok env (ModNode a b) = (0 < b \<and> node_ok env a)"
| "node_ok env (SumNode xs) = list_all (node_ok env) xs"
| "node_ok env (AndNode xs) = list_all (node_ok env) xs"
| "node_ok env (LtNode a b) = node_ok env a"
| "node_ok env (GeNode a b) = node_ok env a"

subsection \<open>The naive walk through the views\<close>

text \<open>
  The reference the index expressions are compared with, following sections 4.2 and 4.5
  of the specification on concrete integers: the top view maps per-dimension indices to
  \<open>offset + sum of idx_i * strides[i]\<close>; an earlier view maps a linear index to
  \<open>offset + sum of ((idx / acc) mod size) * stride\<close> over its merged dimensions from the
  fastest-varying one; a ZeroView leaves the index unchanged.
\<close>

definition naive_top :: "View \<Rightarrow> int list \<Rightarrow> int \<Rightarrow> int" where
  "naive_top v vals extra =
     offset v + extra + sum_list (map (\<lambda>(i, st). i * st) (zip vals (strides v)))"

fun naive_digits :: "int \<Rightarrow> (int \<times> int) list \<Rightarrow> int \<Rightarrow> int" where
  "naive_digits i [] acc = 0"
| "naive_digits i ((d, s) # rest) acc =
     ((i div acc) mod d) * s + naive_digits i rest (acc * d)"

definition naive_view :: "View \<Rightarrow> int \<Rightarrow> int" where
  "naive_view v i = offset v + naive_digits i (rev (shape_strides v)) 1"

fun naive_walk :: "ViewTypes list \<Rightarrow> int \<Rightarrow> int" where
  "naive_walk [] i = i"
| "naive_walk (V v # vs) i = naive_walk vs (naive_view v i)"
| "naive_walk (Z z # vs) i = naive_walk vs i"

text \<open>The value of a list of (node, coefficient) terms.\<close>

definition terms_value :: "(string \<Rightarrow> int) \<Rightarrow> (Node \<times> int) list \<Rightarrow> int" where
  "terms_value env ts = sum_list (map (\<lambda>(v, k). eval env v * k) ts)"

text \<open>
  The views of the data model: a View is one built by the constructor with every
  dimension at least 1; the window of a ZeroView has every dimension at least 1.
\<close>

fun view_types_ok :: "ViewTypes \<Rightarrow> bool" where
  "view_types_ok (V v) = (view_ok v \<and> list_all (\<lambda>d. 1 \<le> d) (shape v))"
| "view_types_ok (Z z) = list_all (\<lambda>d. 1 \<le> d) (shape_z z)"

section \<open>Properties\<close>

lemma to_shape_strides_Inr:
  "length shp = length strds \<Longrightarrow> \<exists>ss. to_shape_strides shp strds = Inr ss"
  by (simp add: to_shape_strides_def split: list.splits)


lemma View_init_Inr:
  assumes "length shp \<le> length strds"
  shows "\<exists>v. View_init shp strds off = Inr v \<and> shape v = shp
           \<and> strides v = map (\<lambda>(stride, sh). if sh \<noteq> 1 then stride else 0) (zip strds shp)
           \<and> offset v = off"
proof -
  let ?s = "map (\<lambda>(stride, sh). if sh \<noteq> 1 then stride else 0) (zip strds shp)"
  have "length shp = length ?s" using assms by simp
  then obtain ss where "to_shape_strides shp ?s = Inr ss"
    using to_shape_strides_Inr by blast
  then show ?thesis by (simp add: View_init_def Let_def)
qed

lemma View_init_shape:
  "View_init shp strds off = Inr v \<Longrightarrow> shape v = shp \<and> offset v = off
     \<and> strides v = map (\<lambda>(stride, sh). if sh \<noteq> 1 then stride else 0) (zip strds shp)
     \<and> length (strides v) = length shp"
  by (auto simp: View_init_def Let_def to_shape_strides_def split: sum.splits if_splits)

lemma view_ok_length: "view_ok v \<Longrightarrow> length (strides v) = length (shape v)"
  unfolding view_ok_def using View_init_shape by blast

lemma view_ok_norm:
  "view_ok v \<Longrightarrow> map (\<lambda>(stride, sh). if sh \<noteq> 1 then stride else 0) (zip (strides v) (shape v)) = strides v"
  unfolding view_ok_def using View_init_shape by metis

lemma View_init_cong:
  "map (\<lambda>(stride, sh). if sh \<noteq> 1 then stride else 0) (zip s1 shp)
     = map (\<lambda>(stride, sh). if sh \<noteq> 1 then stride else 0) (zip s2 shp)
   \<Longrightarrow> View_init shp s1 off = View_init shp s2 off"
  by (simp add: View_init_def)

lemma view_ok_stride_zero: "view_ok v \<Longrightarrow> i < length (shape v) \<Longrightarrow> shape v ! i = 1 \<Longrightarrow> strides v ! i = 0"
proof -
  assume a: "view_ok v" "i < length (shape v)" "shape v ! i = 1"
  have "strides v ! i = map (\<lambda>(stride, sh). if sh \<noteq> 1 then stride else 0) (zip (strides v) (shape v)) ! i"
    using view_ok_norm[OF a(1)] by simp
  also have "\<dots> = 0" using a view_ok_length[OF a(1)] by simp
  finally show ?thesis .
qed

lemma ceil_div_int:
  fixes s m :: int assumes "m \<noteq> 0"
  shows "(s + (abs m - 1)) div abs m = \<lceil>real_of_int s / real_of_int (abs m)\<rceil>"
proof -
  have pos: "0 < abs m" using assms by simp
  have "\<lceil>real_of_int s / real_of_int (abs m)\<rceil> = - \<lfloor>real_of_int (- s) / real_of_int (abs m)\<rfloor>"
    by (simp add: ceiling_def)
  also have "\<dots> = - ((- s) div abs m)"
    by (simp only: floor_divide_of_int_eq)
  also have "\<dots> = (s + (abs m - 1)) div abs m"
  proof -
    define k where "k = abs m"
    have k: "0 < k" using pos k_def by simp
    have "(s + (k - 1)) div k = - ((- s) div k)"
    proof (cases "s mod k = 0")
      case True
      then obtain q where q: "s = k * q" by auto
      have "(k * q + (k - 1)) div k = q" using k
        by (smt (verit) div_mult_self2 div_pos_pos_trivial add.commute)
      moreover have "(- (k * q)) div k = - q"
      proof -
        have "- (k * q) = k * (- q)" by simp
        then show ?thesis using k by (metis less_irrefl nonzero_mult_div_cancel_left)
      qed
      ultimately show ?thesis using q by simp
    next
      case False
      then have "(- s) div k = - (s div k) - 1" using k
        by (simp add: zdiv_zminus1_eq_if)
      moreover have "(s + (k - 1)) div k = s div k + 1"
      proof -
        have "0 \<le> s mod k" using k by simp
        then have r1: "0 < s mod k" using False by linarith
        have r2: "s mod k < k" using k by simp
        note r = r1 r2
        have "s + (k - 1) = k * (s div k + 1) + (s mod k - 1)"
          by (simp add: algebra_simps)
        moreover have "(k * (s div k + 1) + (s mod k - 1)) div k = s div k + 1"
          using r k by (smt (verit) div_mult_self2 div_pos_pos_trivial add.commute)
        ultimately show ?thesis by metis
      qed
      ultimately show ?thesis by simp
    qed
    then show ?thesis using k_def by simp
  qed
  finally show ?thesis by simp
qed

lemma st_top_simps:
  "views st = vs @ [V v] \<Longrightarrow> st_shape st = shape v"
  "views st = vs @ [V v] \<Longrightarrow> st_strides st = strides v"
  "views st = vs @ [V v] \<Longrightarrow> st_offset st = offset v"
  "views st = vs @ [V v] \<Longrightarrow> set_top st v' = st\<lparr>views := vs @ [V v']\<rparr>"
  by (simp_all add: st_shape_def st_strides_def st_offset_def set_top_def)

lemma stride_result:
  assumes top: "views st = vs @ [V v]" and ok: "view_ok v"
    and len: "length mul = length (shape v)" and nz: "\<forall>m\<in>set mul. m \<noteq> 0"
  shows "\<exists>v'. stride st mul = Inr (st\<lparr>views := vs @ [V v']\<rparr>)
     \<and> View_init (map (\<lambda>(s, m). (s + (abs m - 1)) div abs m) (zip (shape v) mul))
          (map (\<lambda>(z, m). z * m) (zip (strides v) mul))
          (offset v + sum_list (map (\<lambda>(s, z, m). (s - 1) * z)
                    (filter (\<lambda>(s, z, m). m < 0) (zip (shape v) (zip (strides v) mul))))) = Inr v'"
proof -
  have l2: "length (strides v) = length (shape v)" using ok by (rule view_ok_length)
  have nz': "\<not> list_ex (\<lambda>(s, m). m = 0) (zip (shape v) mul)"
    using nz by (auto simp: list_ex_iff dest: set_zip_rightD)
  obtain v' where v': "View_init (map (\<lambda>(s, m). (s + (abs m - 1)) div abs m) (zip (shape v) mul))
          (map (\<lambda>(z, m). z * m) (zip (strides v) mul))
          (offset v + sum_list (map (\<lambda>(s, z, m). (s - 1) * z)
                    (filter (\<lambda>(s, z, m). m < 0) (zip (shape v) (zip (strides v) mul))))) = Inr v'"
    using View_init_Inr[of "map (\<lambda>(s, m). (s + (abs m - 1)) div abs m) (zip (shape v) mul)"
        "map (\<lambda>(z, m). z * m) (zip (strides v) mul)"] len l2 by auto
  show ?thesis
    using top nz' v' by (auto simp: stride_def st_top_simps[OF top] Let_def)
qed

lemma sum_filter_zip3_index:
  fixes A B C :: "int list"
  assumes "length B = length A" "length C = length A"
  shows "sum_list (map (\<lambda>(s, z, m). (s - 1) * z) (filter (\<lambda>(s, z, m). m < 0) (zip A (zip B C))))
       = (\<Sum>i\<leftarrow>[0..<length A]. if C ! i < 0 then (A ! i - 1) * B ! i else 0)"
proof -
  let ?xs = "zip A (zip B C)"
  let ?f = "\<lambda>(s, z, m). (s - 1) * z" and ?P = "\<lambda>(s, z, m). m < (0::int)"
  have "sum_list (map ?f (filter ?P ?xs)) = sum_list (map (\<lambda>x. if ?P x then ?f x else 0) ?xs)"
    by (rule sum_list_map_filter')
  moreover have "map (\<lambda>x. if ?P x then ?f x else 0) ?xs
      = map (\<lambda>i. if C ! i < 0 then (A ! i - 1) * B ! i else 0) [0..<length A]"
    by (rule nth_equalityI) (use assms in auto)
  ultimately show ?thesis by simp
qed

text \<open>
  C6 (as amended). For a tracker whose top view was built by the constructor and a tuple
  \<open>mul\<close> of non-zero integers, one per dimension, \<open>stride\<close> returns normally and
  replaces the top view: the new shape is \<open>ceil(shape[i] / |mul[i]|)\<close>, the new stride is
  \<open>strides[i] * mul[i]\<close> except that it is 0 where the new dimension is 1 (the
  constructor's normalisation), and the offset grows by \<open>(shape[i] - 1) * strides[i]\<close>
  for every dimension with a negative multiplier.
\<close>

theorem stride_replaces_top:
  assumes top: "views st = vs @ [V v]" and ok: "view_ok v"
    and len: "length mul = length (shape v)" and nz: "\<forall>m\<in>set mul. m \<noteq> 0"
  shows "\<exists>v'. stride st mul = Inr (st\<lparr>views := vs @ [V v']\<rparr>)
     \<and> length (shape v') = length mul \<and> length (strides v') = length mul
     \<and> (\<forall>i<length mul.
           shape v' ! i = \<lceil>real_of_int (shape v ! i) / real_of_int (abs (mul ! i))\<rceil>
         \<and> strides v' ! i = (if shape v' ! i = 1 then 0 else strides v ! i * mul ! i))
     \<and> offset v' = offset v
          + (\<Sum>i\<leftarrow>[0..<length mul]. if mul ! i < 0 then (shape v ! i - 1) * strides v ! i else 0)"
proof -
  have l2: "length (strides v) = length (shape v)" using ok by (rule view_ok_length)
  obtain v' where r: "stride st mul = Inr (st\<lparr>views := vs @ [V v']\<rparr>)"
    and vi: "View_init (map (\<lambda>(s, m). (s + (abs m - 1)) div abs m) (zip (shape v) mul))
          (map (\<lambda>(z, m). z * m) (zip (strides v) mul))
          (offset v + sum_list (map (\<lambda>(s, z, m). (s - 1) * z)
                    (filter (\<lambda>(s, z, m). m < 0) (zip (shape v) (zip (strides v) mul))))) = Inr v'"
    using stride_result[OF top ok len nz] by blast
  note f = View_init_shape[OF vi]
  have sh: "shape v' = map (\<lambda>(s, m). (s + (abs m - 1)) div abs m) (zip (shape v) mul)"
    using f by simp
  have shi: "shape v' ! i = \<lceil>real_of_int (shape v ! i) / real_of_int (abs (mul ! i))\<rceil>"
    if "i < length mul" for i
  proof -
    have "mul ! i \<noteq> 0" using nz that by simp
    then show ?thesis using that len by (simp add: sh ceil_div_int)
  qed
  have sti: "strides v' ! i = (if shape v' ! i = 1 then 0 else strides v ! i * mul ! i)"
    if "i < length mul" for i
    using f that len l2 by (simp add: sh)
  have off: "offset v' = offset v
          + (\<Sum>i\<leftarrow>[0..<length mul]. if mul ! i < 0 then (shape v ! i - 1) * strides v ! i else 0)"
    using f sum_filter_zip3_index[OF l2 len] len by simp
  have "length (shape v') = length mul" using sh len by simp
  moreover have "length (strides v') = length mul" using f sh len l2 by simp
  ultimately show ?thesis using r shi sti off by blast
qed

lemma View_init_view_ok: "View_init shp strds off = Inr v \<Longrightarrow> view_ok v"
proof -
  assume a: "View_init shp strds off = Inr v"
  note f = View_init_shape[OF a]
  let ?n = "\<lambda>s. map (\<lambda>(stride, sh). if sh \<noteq> 1 then stride else (0::int)) (zip s shp)"
  have "?n (?n strds) = ?n strds"
    by (rule nth_equalityI) auto
  then have "View_init shp (strides v) off = View_init shp strds off"
    using f by (intro View_init_cong) simp
  then show ?thesis using f a by (simp add: view_ok_def)
qed

lemma flip_mul_props:
  "length (map (\<lambda>i. if int i \<in> set axis then - 1 else (1::int)) [0..<n]) = n"
  "\<forall>m\<in>set (map (\<lambda>i. if int i \<in> set axis then - 1 else (1::int)) [0..<n]). m \<noteq> 0"
  "\<forall>m\<in>set (map (\<lambda>i. if int i \<in> set axis then - 1 else (1::int)) [0..<n]). abs m = 1"
  by auto

lemma sum_list_zero_index: "(\<And>i. i < n \<Longrightarrow> f i = (0::int)) \<Longrightarrow> (\<Sum>i\<leftarrow>[0..<n]. f i) = 0"
  by (induction n) auto

text \<open>
  C7. \<open>flip\<close> is an involution: on a tracker whose top view was built by the constructor,
  \<open>flip\<close> over any axis tuple returns normally, and flipping the result over the same
  axes returns the original tracker (so shape, strides and offset of the top view are
  restored).
\<close>

theorem flip_involution:
  assumes top: "views st = vs @ [V v]" and ok: "view_ok v"
  shows "\<exists>st'. flip st axis = Inr st' \<and> flip st' axis = Inr st"
proof -
  define n where "n = length (shape v)"
  define mul where "mul = map (\<lambda>i. if int i \<in> set axis then - 1 else (1::int)) [0..<n]"
  have len: "length mul = length (shape v)" and nz: "\<forall>m\<in>set mul. m \<noteq> 0"
    and ab: "\<forall>m\<in>set mul. abs m = 1"
    unfolding mul_def n_def using flip_mul_props by auto
  have l2: "length (strides v) = length (shape v)" using ok by (rule view_ok_length)
  have f1: "flip st axis = stride st mul"
    by (simp add: flip_def st_top_simps[OF top] mul_def n_def)
  have shp_same: "map (\<lambda>(s, m). (s + (abs m - 1)) div abs m) (zip (shape v) mul) = shape v"
    by (rule nth_equalityI) (use len ab in auto)
  obtain v' where r1: "stride st mul = Inr (st\<lparr>views := vs @ [V v']\<rparr>)"
    and vi1: "View_init (shape v) (map (\<lambda>(z, m). z * m) (zip (strides v) mul))
          (offset v + sum_list (map (\<lambda>(s, z, m). (s - 1) * z)
                    (filter (\<lambda>(s, z, m). m < 0) (zip (shape v) (zip (strides v) mul))))) = Inr v'"
    using stride_result[OF top ok len nz] unfolding shp_same by blast
  note g = View_init_shape[OF vi1]
  have ok': "view_ok v'" using vi1 by (rule View_init_view_ok)
  define st' where "st' = st\<lparr>views := vs @ [V v']\<rparr>"
  have top': "views st' = vs @ [V v']" by (simp add: st'_def)
  have sh': "shape v' = shape v" using g by simp
  have len': "length mul = length (shape v')" using len sh' by simp
  have f2: "flip st' axis = stride st' mul"
    by (simp add: flip_def st_top_simps[OF top'] mul_def n_def sh')
  obtain v'' where r2: "stride st' mul = Inr (st'\<lparr>views := vs @ [V v'']\<rparr>)"
    and vi2: "View_init (shape v) (map (\<lambda>(z, m). z * m) (zip (strides v') mul))
          (offset v' + sum_list (map (\<lambda>(s, z, m). (s - 1) * z)
                    (filter (\<lambda>(s, z, m). m < 0) (zip (shape v) (zip (strides v') mul))))) = Inr v''"
    using stride_result[OF top' ok' len' nz] unfolding sh' shp_same by blast
  have l2': "length (strides v') = length (shape v)" using g by blast
  have sti: "strides v' ! i = (if shape v ! i = 1 then 0 else strides v ! i * mul ! i)"
    if "i < length (shape v)" for i
    using g that len l2 by simp
  have sq: "mul ! i * mul ! i = 1" if "i < length (shape v)" for i
  proof -
    have "abs (mul ! i) = 1" using ab that len by simp
    then show ?thesis by (cases "mul ! i < 0") auto
  qed
  have norm_eq: "map (\<lambda>(stride, sh). if sh \<noteq> 1 then stride else 0)
                    (zip (map (\<lambda>(z, m). z * m) (zip (strides v') mul)) (shape v))
               = map (\<lambda>(stride, sh). if sh \<noteq> 1 then stride else 0) (zip (strides v) (shape v))"
  proof (rule nth_equalityI)
    show "length (map (\<lambda>(stride, sh). if sh \<noteq> 1 then stride else 0)
                    (zip (map (\<lambda>(z, m). z * m) (zip (strides v') mul)) (shape v)))
        = length (map (\<lambda>(stride, sh). if sh \<noteq> 1 then stride else 0) (zip (strides v) (shape v)))"
      using len l2 l2' by simp
  next
    fix i assume "i < length (map (\<lambda>(stride, sh). if sh \<noteq> 1 then stride else 0)
                    (zip (map (\<lambda>(z, m). z * m) (zip (strides v') mul)) (shape v)))"
    then have i: "i < length (shape v)" using len l2 l2' by simp
    have "strides v ! i * mul ! i * mul ! i = strides v ! i"
      using sq[OF i] by (simp add: mult.assoc)
    then show "map (\<lambda>(stride, sh). if sh \<noteq> 1 then stride else 0)
                    (zip (map (\<lambda>(z, m). z * m) (zip (strides v') mul)) (shape v)) ! i
             = map (\<lambda>(stride, sh). if sh \<noteq> 1 then stride else 0) (zip (strides v) (shape v)) ! i"
      using i len l2 l2' sti[OF i] by simp
  qed
  have off_eq: "offset v' + sum_list (map (\<lambda>(s, z, m). (s - 1) * z)
                    (filter (\<lambda>(s, z, m). m < 0) (zip (shape v) (zip (strides v') mul)))) = offset v"
  proof -
    let ?S1 = "\<Sum>i\<leftarrow>[0..<length (shape v)]. if mul ! i < 0 then (shape v ! i - 1) * strides v ! i else 0"
    let ?S2 = "\<Sum>i\<leftarrow>[0..<length (shape v)]. if mul ! i < 0 then (shape v ! i - 1) * strides v' ! i else 0"
    have o1: "offset v' = offset v + ?S1"
      using g sum_filter_zip3_index[OF l2 len] by simp
    have o2: "sum_list (map (\<lambda>(s, z, m). (s - 1) * z)
                    (filter (\<lambda>(s, z, m). m < 0) (zip (shape v) (zip (strides v') mul)))) = ?S2"
      using sum_filter_zip3_index[OF l2' len] by simp
    have "?S1 + ?S2 = (\<Sum>i\<leftarrow>[0..<length (shape v)].
              (if mul ! i < 0 then (shape v ! i - 1) * strides v ! i else 0)
            + (if mul ! i < 0 then (shape v ! i - 1) * strides v' ! i else 0))"
      by (simp add: sum_list_addf)
    also have "\<dots> = 0"
    proof (rule sum_list_zero_index)
      fix i assume i: "i < length (shape v)"
      have "abs (mul ! i) = 1" using ab i len by simp
      then have "mul ! i < 0 \<Longrightarrow> mul ! i = - 1" by simp
      then show "(if mul ! i < 0 then (shape v ! i - 1) * strides v ! i else 0)
            + (if mul ! i < 0 then (shape v ! i - 1) * strides v' ! i else 0) = 0"
        using sti[OF i] by auto
    qed
    finally show ?thesis using o1 o2 by simp
  qed
  have "View_init (shape v) (map (\<lambda>(z, m). z * m) (zip (strides v') mul)) (offset v)
      = View_init (shape v) (strides v) (offset v)"
    using norm_eq by (rule View_init_cong)
  then have "Inr v'' = (Inr v :: View result)"
    using vi2 ok unfolding off_eq view_ok_def by simp
  then have "v'' = v" by simp
  then have "stride st' mul = Inr st"
    using r2 top by (simp add: st'_def)
  then show ?thesis using f1 f2 r1 st'_def by auto
qed

text \<open>
  C9. \<open>expand\<close> performs no rank check: on a tracker of rank N whose top view was built by
  the constructor, a \<open>new_shape\<close> of length M < N whose entries agree with the current
  dimension (or face a dimension of size 1) raises no error; the top view is replaced by
  a view of rank M with shape \<open>new_shape\<close>, the same offset, and the first M strides
  (zeroed where the dimension was expanded or has size 1), so the trailing N - M
  dimensions are gone.
\<close>

theorem expand_shorter_no_rank_check:
  assumes top: "views st = vs @ [V v]" and ok: "view_ok v"
    and shorter: "length new_shape < length (shape v)"
    and agree: "\<forall>i<length new_shape. shape v ! i = new_shape ! i \<or> shape v ! i = 1"
  shows "\<exists>v'. expand st new_shape = Inr (st\<lparr>views := vs @ [V v']\<rparr>)
     \<and> shape v' = new_shape \<and> length (strides v') = length new_shape
     \<and> offset v' = offset v
     \<and> (\<forall>i<length new_shape. strides v' ! i =
           (if new_shape ! i = 1 then 0
            else if shape v ! i = new_shape ! i then strides v ! i else 0))"
proof -
  have l2: "length (strides v) = length (shape v)" using ok by (rule view_ok_length)
  let ?strds = "map (\<lambda>(s, (x, y)). if x = y then s else 0)
                     (zip (strides v) (zip (shape v) new_shape))"
  have ls: "length ?strds = length new_shape" using shorter l2 by simp
  have chk: "list_all (\<lambda>(x, y). x = y \<or> x = 1) (zip (shape v) new_shape)"
    unfolding list_all_length using agree shorter by auto
  have "length new_shape \<le> length ?strds" using ls by linarith
  from View_init_Inr[OF this, of "offset v"]
  obtain v' where vi: "View_init new_shape ?strds (offset v) = Inr v'"
    by blast
  note f = View_init_shape[OF vi]
  have r: "expand st new_shape = Inr (st\<lparr>views := vs @ [V v']\<rparr>)"
    using top chk vi by (simp add: expand_def st_top_simps[OF top])
  have sti: "strides v' ! i =
           (if new_shape ! i = 1 then 0
            else if shape v ! i = new_shape ! i then strides v ! i else 0)"
    if "i < length new_shape" for i
    using f that shorter l2 by simp
  have "length (strides v') = length new_shape" using f by blast
  moreover have "shape v' = new_shape" "offset v' = offset v" using f by blast+
  ultimately show ?thesis using r sti by blast
qed


theorem expand_shorter_no_rank_check_witness:
  "view_ok \<lparr>shape = [2, 1, 3], strides = [3, 0, 1], offset = 0,
            shape_strides = [(2, 3), (3, 1)], contiguous = True\<rparr>
   \<and> length [2::int] < length [2, 1, 3::int]
   \<and> expand \<lparr>views = [V \<lparr>shape = [2, 1, 3], strides = [3, 0, 1], offset = 0,
            shape_strides = [(2, 3), (3, 1)], contiguous = True\<rparr>]\<rparr> [2]
       = Inr \<lparr>views = [V \<lparr>shape = [2], strides = [3], offset = 0,
            shape_strides = [(2, 3)], contiguous = False\<rparr>]\<rparr>"
proof -
  let ?v = "\<lparr>shape = [2, 1, 3], strides = [3, 0, 1], offset = 0,
            shape_strides = [(2, 3), (3, 1)], contiguous = True\<rparr>"
  have ok: "view_ok ?v" by code_simp
  have ev: "expand \<lparr>views = [V ?v]\<rparr> [2]
       = Inr \<lparr>views = [V \<lparr>shape = [2], strides = [3], offset = 0,
            shape_strides = [(2, 3)], contiguous = False\<rparr>]\<rparr>" by code_simp
  have "\<exists>v'. expand \<lparr>views = [V ?v]\<rparr> [2] = Inr (\<lparr>views = [V ?v]\<rparr>\<lparr>views := [] @ [V v']\<rparr>)
          \<and> shape v' = [2]"
    using expand_shorter_no_rank_check[of "\<lparr>views = [V ?v]\<rparr>" "[]" ?v "[2]", OF _ ok]
    by (simp add: less_Suc_eq) blast
  with ok ev show ?thesis by simp
qed

text \<open>
  C6 (as stated) fails where a strided dimension shrinks to size 1: the constructor zeroes
  that stride. \<open>new((3,)).stride((3,))\<close> has shape \<open>(1,)\<close> and stride \<open>(0,)\<close>, not
  \<open>(1 * 3,)\<close>.
\<close>

theorem stride_strides_counterexample:
  "st_strides (projr (ShapeTracker_init [3])) = [1]
   \<and> stride (projr (ShapeTracker_init [3])) [3]
       = Inr \<lparr>views = [V \<lparr>shape = [1], strides = [0], offset = 0,
            shape_strides = [(1, 0)], contiguous = True\<rparr>]\<rparr>
   \<and> st_strides (projr (stride (projr (ShapeTracker_init [3])) [3])) \<noteq> [1 * 3]"
  by code_simp

theorem stride_replaces_top_witness:
  "view_ok \<lparr>shape = [10], strides = [1], offset = 0, shape_strides = [(10, 1)], contiguous = True\<rparr>
   \<and> ShapeTracker_init [10]
       = Inr \<lparr>views = [V \<lparr>shape = [10], strides = [1], offset = 0,
            shape_strides = [(10, 1)], contiguous = True\<rparr>]\<rparr>
   \<and> stride \<lparr>views = [V \<lparr>shape = [10], strides = [1], offset = 0,
            shape_strides = [(10, 1)], contiguous = True\<rparr>]\<rparr> [2]
       = Inr \<lparr>views = [V \<lparr>shape = [5], strides = [2], offset = 0,
            shape_strides = [(5, 2)], contiguous = False\<rparr>]\<rparr>"
proof -
  let ?v = "\<lparr>shape = [10], strides = [1], offset = 0, shape_strides = [(10, 1)], contiguous = True\<rparr>"
  have ok: "view_ok ?v" by code_simp
  have ini: "ShapeTracker_init [10] = Inr \<lparr>views = [V ?v]\<rparr>" by code_simp
  have ev: "stride \<lparr>views = [V ?v]\<rparr> [2]
       = Inr \<lparr>views = [V \<lparr>shape = [5], strides = [2], offset = 0,
            shape_strides = [(5, 2)], contiguous = False\<rparr>]\<rparr>" by code_simp
  have "\<exists>v'. stride \<lparr>views = [V ?v]\<rparr> [2] = Inr (\<lparr>views = [V ?v]\<rparr>\<lparr>views := [] @ [V v']\<rparr>)
          \<and> length (shape v') = length [2::int]"
    using stride_replaces_top[of "\<lparr>views = [V ?v]\<rparr>" "[]" ?v "[2]", OF _ ok]
    by simp blast
  with ok ini ev show ?thesis by simp
qed

theorem flip_involution_witness:
  "view_ok \<lparr>shape = [5], strides = [1], offset = 0, shape_strides = [(5, 1)], contiguous = True\<rparr>
   \<and> flip \<lparr>views = [V \<lparr>shape = [5], strides = [1], offset = 0,
            shape_strides = [(5, 1)], contiguous = True\<rparr>]\<rparr> [0]
       = Inr \<lparr>views = [V \<lparr>shape = [5], strides = [- 1], offset = 4,
            shape_strides = [(5, - 1)], contiguous = False\<rparr>]\<rparr>
   \<and> flip \<lparr>views = [V \<lparr>shape = [5], strides = [- 1], offset = 4,
            shape_strides = [(5, - 1)], contiguous = False\<rparr>]\<rparr> [0]
       = Inr \<lparr>views = [V \<lparr>shape = [5], strides = [1], offset = 0,
            shape_strides = [(5, 1)], contiguous = True\<rparr>]\<rparr>"
proof -
  let ?v = "\<lparr>shape = [5], strides = [1], offset = 0, shape_strides = [(5, 1)], contiguous = True\<rparr>"
  let ?w = "\<lparr>shape = [5], strides = [- 1], offset = 4, shape_strides = [(5, - 1)], contiguous = False\<rparr>"
  have ok: "view_ok ?v" by code_simp
  have ev: "flip \<lparr>views = [V ?v]\<rparr> [0] = Inr \<lparr>views = [V ?w]\<rparr>" by code_simp
  have "\<exists>st'. flip \<lparr>views = [V ?v]\<rparr> [0] = Inr st' \<and> flip st' [0] = Inr \<lparr>views = [V ?v]\<rparr>"
    using flip_involution[of "\<lparr>views = [V ?v]\<rparr>" "[]" ?v "[0]", OF _ ok] by simp
  with ev have "flip \<lparr>views = [V ?w]\<rparr> [0] = Inr \<lparr>views = [V ?v]\<rparr>" by auto
  with ok ev show ?thesis by simp
qed

text \<open>
  C2 fails on the code for \<open>View.expr_node\<close> and \<open>ZeroView.expr_node\<close>: their default
  index variable has upper bound \<open>prod(shape)\<close>, one more than \<open>prod(shape) - 1\<close>, which
  only \<open>ShapeTracker.expr_node\<close> uses. Shown on the identity view of shape \<open>(3,)\<close> and the
  ZeroView with window \<open>((0, 3),)\<close>.
\<close>

theorem default_idx_upper_bound_off_by_one:
  "View_default_idx \<lparr>shape = [3], strides = [1], offset = 0,
       shape_strides = [(3, 1)], contiguous = True\<rparr> = Variable ''idx'' 0 3
   \<and> ZeroView_default_idx (ZeroView_init [3] [(0, 3)]) = Variable ''idx'' 0 3
   \<and> ShapeTracker_default_idx \<lparr>views = [V \<lparr>shape = [3], strides = [1], offset = 0,
       shape_strides = [(3, 1)], contiguous = True\<rparr>]\<rparr> ''idx'' = Variable ''idx'' 0 2
   \<and> nmax (View_default_idx \<lparr>shape = [3], strides = [1], offset = 0,
       shape_strides = [(3, 1)], contiguous = True\<rparr>)
       \<noteq> prod [3] - 1"
  by code_simp

text \<open>
  C8 fails on the code: \<open>simplify\<close> probes each dimension of the top view on its own and
  misses that two dimensions together can carry into the next digit of the view below.
  For \<open>new((2,1)).expand((2,3)).reshape((6,)).reshape((3,2)).shrink(((0,2),(0,2)))\<close> the
  offset expression is \<open>(2*idx0 + idx1) // 3\<close>, which is 1 at index (1,1); after
  \<open>simplify\<close> the tracker is a single view with strides (0,0) and the offset is 0.
\<close>

theorem simplify_changes_offset:
  "then_op (then_op (then_op (then_op (ShapeTracker_init [2, 1]) expand [2, 3])
        reshape [6]) reshape [3, 2]) shrink [(0, 2), (0, 2)]
     = Inr \<lparr>views = [V \<lparr>shape = [2, 3], strides = [1, 0], offset = 0,
                          shape_strides = [(2, 1), (3, 0)], contiguous = False\<rparr>,
                      V \<lparr>shape = [2, 2], strides = [2, 1], offset = 0,
                          shape_strides = [(4, 1)], contiguous = True\<rparr>]\<rparr>
   \<and> simplify \<lparr>views = [V \<lparr>shape = [2, 3], strides = [1, 0], offset = 0,
                          shape_strides = [(2, 1), (3, 0)], contiguous = False\<rparr>,
                      V \<lparr>shape = [2, 2], strides = [2, 1], offset = 0,
                          shape_strides = [(4, 1)], contiguous = True\<rparr>]\<rparr>
     = Inr \<lparr>views = [V \<lparr>shape = [2, 2], strides = [0, 0], offset = 0,
                          shape_strides = [(4, 0)], contiguous = False\<rparr>]\<rparr>
   \<and> expr_idxs \<lparr>views = [V \<lparr>shape = [2, 3], strides = [1, 0], offset = 0,
                          shape_strides = [(2, 1), (3, 0)], contiguous = False\<rparr>,
                      V \<lparr>shape = [2, 2], strides = [2, 1], offset = 0,
                          shape_strides = [(4, 1)], contiguous = True\<rparr>]\<rparr> 0 None
     = Inr (DivNode (SumNode [MulNode (Variable ''idx0'' 0 1) 2, Variable ''idx1'' 0 1]) 3,
            NumNode 1)
   \<and> expr_idxs \<lparr>views = [V \<lparr>shape = [2, 2], strides = [0, 0], offset = 0,
                          shape_strides = [(4, 0)], contiguous = False\<rparr>]\<rparr> 0 None
     = Inr (NumNode 0, NumNode 1)
   \<and> eval (assign [(''idx0'', 1), (''idx1'', 1)])
        (DivNode (SumNode [MulNode (Variable ''idx0'' 0 1) 2, Variable ''idx1'' 0 1]) 3) = 1
   \<and> eval (assign [(''idx0'', 1), (''idx1'', 1)]) (NumNode 0) = 0"
  by code_simp

declare simplify.simps [simp del] simplify_depth.simps [simp del]

lemma simplify_step_shorter:
  "simplify_step st = Inr (Some st') \<Longrightarrow> Suc (length (views st')) = length (views st)"
  by (auto simp: simplify_step_def split: if_splits ViewTypes.splits sum.splits)

lemma simplify_depth_le: "simplify_depth st \<le> length (views st)"
proof (induction st rule: simplify_depth.induct)
  case (1 st)
  show ?case
  proof (cases "simplify_step st")
    case (Inl e)
    then show ?thesis by (simp add: simplify_depth.simps[of st])
  next
    case (Inr r)
    show ?thesis
    proof (cases r)
      case None
      then show ?thesis using Inr by (simp add: simplify_depth.simps[of st])
    next
      case (Some st')
      have "simplify_depth st' \<le> length (views st')"
        using "1.IH"[OF Inr Some] .
      moreover have "Suc (length (views st')) = length (views st)"
        using Inr Some simplify_step_shorter by simp
      moreover have "simplify_depth st = Suc (simplify_depth st')"
        using Inr Some by (simp add: simplify_depth.simps[of st])
      ultimately show ?thesis by simp
    qed
  qed
qed

lemma simplify_views_le: "simplify st = Inr st' \<Longrightarrow> length (views st') \<le> length (views st)"
proof (induction st rule: simplify.induct)
  case (1 st)
  show ?case
  proof (cases "simplify_step st")
    case (Inl e)
    then show ?thesis using "1.prems" by (simp add: simplify.simps[of st])
  next
    case (Inr r)
    show ?thesis
    proof (cases r)
      case None
      then show ?thesis using Inr "1.prems" by (simp add: simplify.simps[of st])
    next
      case (Some st1)
      have "simplify st1 = Inr st'" using "1.prems" Inr Some by (simp add: simplify.simps[of st])
      then have "length (views st') \<le> length (views st1)"
        using "1.IH"[OF Inr Some] by simp
      then show ?thesis using simplify_step_shorter Inr Some by fastforce
    qed
  qed
qed

text \<open>
  C10. \<open>simplify\<close> terminates on every tracker. It is a total function whose only
  self-call follows a round that replaced the top two views by one, so the call runs on
  a views list that is exactly one shorter; the number of nested self-calls is at most the
  initial number of views, and the result, when no error is raised, has no more views than
  the input.
\<close>

theorem simplify_terminates:
  "simplify st = (case simplify_step st of
                    Inl e \<Rightarrow> Inl e
                  | Inr None \<Rightarrow> Inr st
                  | Inr (Some st') \<Rightarrow> simplify st')
   \<and> (\<forall>st'. simplify_step st = Inr (Some st') \<longrightarrow> length (views st') < length (views st))
   \<and> simplify_depth st \<le> length (views st)"
proof -
  have "simplify_depth st \<le> length (views st)" by (rule simplify_depth_le)
  moreover have "\<forall>st'. simplify_step st = Inr (Some st') \<longrightarrow> length (views st') < length (views st)"
    using simplify_step_shorter by fastforce
  ultimately show ?thesis using simplify.simps[of st] by simp
qed

theorem simplify_terminates_witness:
  "simplify_step \<lparr>views = [V \<lparr>shape = [2, 3], strides = [1, 0], offset = 0,
                          shape_strides = [(2, 1), (3, 0)], contiguous = False\<rparr>,
                      V \<lparr>shape = [2, 2], strides = [2, 1], offset = 0,
                          shape_strides = [(4, 1)], contiguous = True\<rparr>]\<rparr>
     = Inr (Some \<lparr>views = [V \<lparr>shape = [2, 2], strides = [0, 0], offset = 0,
                          shape_strides = [(4, 0)], contiguous = False\<rparr>]\<rparr>)
   \<and> length (views \<lparr>views = [V \<lparr>shape = [2, 2], strides = [0, 0], offset = 0,
                          shape_strides = [(4, 0)], contiguous = False\<rparr>]\<rparr>)
       < length (views \<lparr>views = [V \<lparr>shape = [2, 3], strides = [1, 0], offset = 0,
                          shape_strides = [(2, 1), (3, 0)], contiguous = False\<rparr>,
                      V \<lparr>shape = [2, 2], strides = [2, 1], offset = 0,
                          shape_strides = [(4, 1)], contiguous = True\<rparr>]\<rparr>)
   \<and> simplify_depth \<lparr>views = [V \<lparr>shape = [2, 3], strides = [1, 0], offset = 0,
                          shape_strides = [(2, 1), (3, 0)], contiguous = False\<rparr>,
                      V \<lparr>shape = [2, 2], strides = [2, 1], offset = 0,
                          shape_strides = [(4, 1)], contiguous = True\<rparr>]\<rparr> \<le> 2"
proof -
  let ?st = "\<lparr>views = [V \<lparr>shape = [2, 3], strides = [1, 0], offset = 0,
                          shape_strides = [(2, 1), (3, 0)], contiguous = False\<rparr>,
                      V \<lparr>shape = [2, 2], strides = [2, 1], offset = 0,
                          shape_strides = [(4, 1)], contiguous = True\<rparr>]\<rparr>"
  let ?st' = "\<lparr>views = [V \<lparr>shape = [2, 2], strides = [0, 0], offset = 0,
                          shape_strides = [(4, 0)], contiguous = False\<rparr>]\<rparr>"
  have ev: "simplify_step ?st = Inr (Some ?st')" by code_simp
  have "length (views ?st') < length (views ?st)"
    using simplify_terminates[of ?st] ev by blast
  moreover have "simplify_depth ?st \<le> 2"
    using simplify_terminates[of ?st] by simp
  ultimately show ?thesis using ev by blast
qed

lemma foldl_mult_prod_list: "foldl (\<lambda>a b. a * b) (a::int) xs = a * prod_list xs"
  by (induction xs arbitrary: a) (auto simp: algebra_simps)

lemma prod_prod_list: "prod xs = prod_list xs"
  by (simp add: prod_def foldl_mult_prod_list)

lemma prod_list_pos: "\<forall>x\<in>set xs. (0::int) < x \<Longrightarrow> 0 < prod_list xs"
  by (induction xs) auto

lemma div_node_Inr: "0 < k \<Longrightarrow> \<exists>q. div_node e k = Inr q"
  by (auto simp: div_node_def split: Node.splits)

lemma mod_node_Inr: "0 < k \<Longrightarrow> \<exists>m. mod_node e k = Inr m"
  by (induction e k rule: mod_node.induct) auto

lemma zv_loop_no_guards:
  assumes "0 < acc" and "\<forall>(s, ns, x, y)\<in>set ts. 0 < ns \<and> 0 \<le> x \<and> y \<le> s"
  shows "ZeroView_expr_node_loop idx ts expr acc = Inr expr"
  using assms
proof (induction ts arbitrary: acc)
  case Nil
  then show ?case by simp
next
  case (Cons t ts)
  obtain s ns x y where t: "t = (s, ns, x, y)" by (cases t) auto
  have ns: "0 < ns" "0 \<le> x" "y \<le> s" using Cons.prems(2) t by auto
  obtain q where q: "div_node idx acc = Inr q" using div_node_Inr[OF Cons.prems(1)] by blast
  obtain m where m: "mod_node q ns = Inr m" using mod_node_Inr[OF ns(1)] by blast
  have "0 < acc * ns" using Cons.prems(1) ns(1) by simp
  then have "ZeroView_expr_node_loop idx ts expr (acc * ns) = Inr expr"
    using Cons.IH Cons.prems(2) by simp
  then show ?case using t q m ns by (simp add: Let_def)
qed

lemma base_bounds:
  assumes "0 < acc" "0 < ns" "ns \<le> P div acc"
  shows "\<exists>base. div_node (Variable n 0 P) acc = Inr (DivNode (Variable n 0 P) acc)
     \<and> mod_node (DivNode (Variable n 0 P) acc) ns = Inr (ModNode (DivNode (Variable n 0 P) acc) ns)
     \<and> sum_nodes [ModNode (DivNode (Variable n 0 P) acc) ns, num x] = base
     \<and> nmin base = x \<and> nmax base = ns - 1 + x"
proof -
  have "1 \<le> P div acc" using assms by linarith
  then have "acc \<le> P" using assms(1)
    by (metis div_pos_pos_trivial not_le not_one_le_zero less_le_trans zdiv_mono1 div_by_1 linorder_not_less pos_imp_zdiv_nonneg_iff order_less_le zero_less_one_class.zero_le_one dual_order.trans div_0)
  then have d: "div_node (Variable n 0 P) acc = Inr (DivNode (Variable n 0 P) acc)"
    using assms(1) by (simp add: div_node_def nmax_def nmin_def)
  have m: "mod_node (DivNode (Variable n 0 P) acc) ns = Inr (ModNode (DivNode (Variable n 0 P) acc) ns)"
    using assms by (simp add: nmax_def nmin_def)
  have s: "sum_nodes [ModNode (DivNode (Variable n 0 P) acc) ns, num x]
       = (if x = 0 then ModNode (DivNode (Variable n 0 P) acc) ns
          else SumNode [ModNode (DivNode (Variable n 0 P) acc) ns, NumNode x])"
    by (simp add: sum_nodes_def num_def group_vars_def List.map_filter_simps)
  show ?thesis using d m s by (auto simp: nmin_def nmax_def)
qed

lemma zv_loop_guards:
  assumes "0 < acc"
    and "\<forall>(s, ns, x, y)\<in>set ts. 0 < ns \<and> ns = y - x"
    and "acc * prod_list (map (\<lambda>t. fst (snd t)) ts) = P"
  shows "\<exists>gs. ZeroView_expr_node_loop (Variable n 0 P) ts expr acc = Inr (expr @ gs)
     \<and> list_all open_guard gs
     \<and> (gs = [] \<longleftrightarrow> (\<forall>(s, ns, x, y)\<in>set ts. 0 \<le> x \<and> y \<le> s))"
  using assms
proof (induction ts arbitrary: acc expr)
  case Nil
  then show ?case by simp
next
  case (Cons t ts)
  obtain s ns x y where t: "t = (s, ns, x, y)" by (cases t) auto
  have ns: "0 < ns" "ns = y - x" using Cons.prems(2) t by auto
  let ?R = "prod_list (map (\<lambda>t. fst (snd t)) ts)"
  have Rpos: "0 < ?R"
    by (rule prod_list_pos) (use Cons.prems(2) in auto)
  have P: "P = acc * (ns * ?R)" using Cons.prems(3) t by (simp add: algebra_simps)
  have "P div acc = ns * ?R" using P Cons.prems(1) by simp
  moreover have "ns \<le> ns * ?R" using ns(1) Rpos by simp
  ultimately have le: "ns \<le> P div acc" by simp
  obtain base where d: "div_node (Variable n 0 P) acc = Inr (DivNode (Variable n 0 P) acc)"
    and m: "mod_node (DivNode (Variable n 0 P) acc) ns = Inr (ModNode (DivNode (Variable n 0 P) acc) ns)"
    and b: "sum_nodes [ModNode (DivNode (Variable n 0 P) acc) ns, num x] = base"
    and bmin: "nmin base = x" and bmax: "nmax base = ns - 1 + x"
    using base_bounds[OF Cons.prems(1) ns(1) le, of n x] by blast
  let ?g = "(if x < 0 then [ge_node base 0] else []) @ (if y > s then [lt_node base s] else [])"
  have g_open: "list_all open_guard ?g"
    using bmin bmax ns(2) by (auto simp: ge_node_def lt_node_def)
  have g_empty: "?g = [] \<longleftrightarrow> (0 \<le> x \<and> y \<le> s)" by auto
  have acc': "0 < acc * ns" using Cons.prems(1) ns(1) by simp
  have P': "acc * ns * ?R = P" using P by (simp add: algebra_simps)
  have rest: "\<forall>(s, ns, x, y)\<in>set ts. 0 < ns \<and> ns = y - x" using Cons.prems(2) by simp
  obtain gs where gs: "ZeroView_expr_node_loop (Variable n 0 P) ts (expr @ ?g) (acc * ns) = Inr ((expr @ ?g) @ gs)"
    and gs_open: "list_all open_guard gs"
    and gs_empty: "gs = [] \<longleftrightarrow> (\<forall>(s, ns, x, y)\<in>set ts. 0 \<le> x \<and> y \<le> s)"
    using Cons.IH[OF acc' rest P', of "expr @ ?g"] by blast
  have step: "ZeroView_expr_node_loop (Variable n 0 P) (t # ts) expr acc = Inr (expr @ (?g @ gs))"
    using t d m b gs by (simp add: Let_def)
  have "list_all open_guard (?g @ gs)" using g_open gs_open by simp
  moreover have "(?g @ gs = []) \<longleftrightarrow> (\<forall>(s, ns, x, y)\<in>set (t # ts). 0 \<le> x \<and> y \<le> s)"
    using g_empty gs_empty t by auto
  ultimately show ?case using step by blast
qed

lemma ands_open_guards:
  assumes "list_all open_guard gs" "gs \<noteq> []"
  shows "nmin (ands gs) = 0"
proof -
  have flat: "flatten_ands gs = gs" using assms(1)
  proof (induction gs)
    case Nil then show ?case by simp
  next
    case (Cons g gs) then show ?case by (cases g) auto
  qed
  have ne1: "filter (\<lambda>x. x \<noteq> NumNode 1) gs = gs" using assms(1)
  proof (induction gs)
    case Nil then show ?case by simp
  next
    case (Cons g gs) then show ?case by (cases g) auto
  qed
  have each: "\<forall>g\<in>set gs. nmin g = 0"
  proof
    fix g assume "g \<in> set gs"
    then have "open_guard g" using assms(1) by (simp add: list_all_iff)
    then show "nmin g = 0" by (cases g) (auto simp: nmin_def)
  qed
  have unf: "ands gs = (if NumNode 0 \<in> set gs then NumNode 0
         else case gs of [] \<Rightarrow> NumNode 1 | [x] \<Rightarrow> x | _ \<Rightarrow> AndNode gs)"
    by (simp add: ands_def flat ne1 Let_def)
  show ?thesis
  proof (cases "NumNode 0 \<in> set gs")
    case True
    then show ?thesis by (simp add: unf nmin_def)
  next
    case False
    show ?thesis
    proof (cases gs)
      case Nil then show ?thesis using assms(2) by simp
    next
      case (Cons g gs')
      show ?thesis
      proof (cases gs')
        case Nil
        then show ?thesis using False Cons each unfolding unf by simp
      next
        case (Cons h hs)
        then show ?thesis using False \<open>gs = g # gs'\<close> unfolding unf
          by (simp add: nmin_def)
      qed
    qed
  qed
qed

lemma prod_list_rev_int: "prod_list (rev xs) = prod_list (xs::int list)"
  by (induction xs) (auto simp: algebra_simps)

lemma length_strides_for_shape_foldl:
  "length (foldl (\<lambda>strides d. (d * hd strides) # strides) s xs) = length s + length xs"
  by (induction xs arbitrary: s) auto

lemma length_strides_for_shape: "length shp \<le> length (strides_for_shape shp)"
  by (simp add: strides_for_shape_def length_strides_for_shape_foldl)

lemma zv_default:
  assumes len: "length shp = length a" and pos: "\<forall>(x, y)\<in>set a. x < y"
  shows "\<exists>valid. ZeroView_expr_node (ZeroView_init shp a) None None = Inr valid
     \<and> (nmin valid = 0 \<longleftrightarrow> \<not> (\<forall>(s, x, y)\<in>set (zip shp a). 0 \<le> x \<and> y \<le> s))"
proof -
  let ?ns = "map (\<lambda>(x, y). y - x) a"
  let ?P = "prod_list ?ns"
  let ?ts = "rev (zip shp (zip ?ns a))"
  have nspos: "\<forall>d\<in>set ?ns. 0 < d" using pos by auto
  have Ppos: "0 < ?P" by (rule prod_list_pos[OF nspos])
  have idx: "ZeroView_default_idx (ZeroView_init shp a) = Variable ''idx'' 0 ?P"
    using Ppos by (simp add: ZeroView_default_idx_def ZeroView_init_def Let_def var_def prod_prod_list)
  have ts_ok: "\<forall>(s, ns, x, y)\<in>set ?ts. 0 < ns \<and> ns = y - x"
  proof -
    have "\<forall>(ns, x, y)\<in>set (zip ?ns a). 0 < ns \<and> ns = y - x"
      using pos by (auto simp: zip_map1 zip_same)
    then show ?thesis by (auto dest: set_zip_rightD)
  qed
  have "map (\<lambda>t. fst (snd t)) (zip shp (zip ?ns a)) = ?ns"
    by (rule nth_equalityI) (use len in auto)
  then have prodP: "1 * prod_list (map (\<lambda>t. fst (snd t)) ?ts) = ?P"
    by (simp add: rev_map[symmetric] prod_list_rev_int)
  obtain gs where loop: "ZeroView_expr_node_loop (Variable ''idx'' 0 ?P) ?ts [] 1 = Inr ([] @ gs)"
    and op: "list_all open_guard gs"
    and emp: "gs = [] \<longleftrightarrow> (\<forall>(s, ns, x, y)\<in>set ?ts. 0 \<le> x \<and> y \<le> s)"
    using zv_loop_guards[OF zero_less_one ts_ok prodP, of "''idx''" "[]"] by blast
  have emp': "(\<forall>(s, ns, x, y)\<in>set ?ts. 0 \<le> x \<and> y \<le> s)
        \<longleftrightarrow> (\<forall>(s, x, y)\<in>set (zip shp a). 0 \<le> x \<and> y \<le> s)"
  proof -
    have "set ?ts = (\<lambda>i. (shp ! i, ?ns ! i, a ! i)) ` {..<length a}"
      using len by (auto simp: set_zip image_iff)
    moreover have "set (zip shp a) = (\<lambda>i. (shp ! i, a ! i)) ` {..<length a}"
      using len by (auto simp: set_zip image_iff)
    ultimately show ?thesis by (auto simp: case_prod_beta)
  qed
  have res: "ZeroView_expr_node (ZeroView_init shp a) None None = Inr (ands gs)"
    using loop by (simp add: ZeroView_expr_node_def idx) (simp add: ZeroView_init_def Let_def)
  have "nmin (ands gs) = 0 \<longleftrightarrow> gs \<noteq> []"
  proof (cases "gs = []")
    case True
    then show ?thesis by (simp add: ands_def nmin_def)
  next
    case False
    then show ?thesis using ands_open_guards[OF op] by simp
  qed
  then have "nmin (ands gs) = 0 \<longleftrightarrow> \<not> (\<forall>(s, x, y)\<in>set (zip shp a). 0 \<le> x \<and> y \<le> s)"
    using emp emp' by blast
  then show ?thesis using res by blast
qed

lemma shrink_result:
  assumes top: "views st = vs @ [V v]" and ok: "view_ok v"
    and len: "length a = length (shape v)" and pos: "\<forall>(x, y)\<in>set a. x < y"
  shows "\<exists>v' w. View_init (map (\<lambda>(x, y). y - x) a) (strides v)
                  (offset v + sum_list (map (\<lambda>(z, (x, y)). z * x) (zip (strides v) a))) = Inr v'
     \<and> View_init (map (\<lambda>(x, y). y - x) a) (strides_for_shape (map (\<lambda>(x, y). y - x) a)) 0 = Inr w
     \<and> shrink st a =
         (if \<forall>(s, x, y)\<in>set (zip (shape v) a). 0 \<le> x \<and> y \<le> s
          then Inr (st\<lparr>views := vs @ [V v']\<rparr>)
          else Inr (st\<lparr>views := vs @ [V v', Z (ZeroView_init (shape v) a), V w]\<rparr>))"
proof -
  let ?ns = "map (\<lambda>(x, y). y - x) a"
  let ?off = "offset v + sum_list (map (\<lambda>(z, (x, y)). z * x) (zip (strides v) a))"
  have l2: "length (strides v) = length (shape v)" using ok by (rule view_ok_length)
  have "length ?ns \<le> length (strides v)" using len l2 by simp
  from View_init_Inr[OF this, of ?off]
  obtain v' where v': "View_init ?ns (strides v) ?off = Inr v'" and sv': "shape v' = ?ns" by blast
  from View_init_Inr[OF length_strides_for_shape, of ?ns 0]
  obtain w where w: "View_init ?ns (strides_for_shape ?ns) 0 = Inr w" by blast
  obtain valid where valid: "ZeroView_expr_node (ZeroView_init (shape v) a) None None = Inr valid"
    and vmin: "nmin valid = 0 \<longleftrightarrow> \<not> (\<forall>(s, x, y)\<in>set (zip (shape v) a). 0 \<le> x \<and> y \<le> s)"
    using zv_default[OF len[symmetric] pos] by blast
  have top1: "views (st\<lparr>views := vs @ [V v']\<rparr>) = vs @ [V v']" by simp
  have "shrink st a =
         (if \<forall>(s, x, y)\<in>set (zip (shape v) a). 0 \<le> x \<and> y \<le> s
          then Inr (st\<lparr>views := vs @ [V v']\<rparr>)
          else Inr (st\<lparr>views := vs @ [V v', Z (ZeroView_init (shape v) a), V w]\<rparr>))"
    using top len l2 v' w valid vmin
    by (simp add: shrink_def st_top_simps[OF top] st_top_simps(1)[OF top1] sv' Let_def)
  then show ?thesis using v' w by blast
qed

lemma sum_zip_strides_index:
  fixes zs :: "int list" and a :: "(int \<times> int) list"
  assumes "length zs = length a"
  shows "sum_list (map (\<lambda>(z, (x, y)). z * x) (zip zs a))
       = (\<Sum>i\<leftarrow>[0..<length a]. zs ! i * fst (a ! i))"
proof -
  have "map (\<lambda>(z, (x, y)). z * x) (zip zs a) = map (\<lambda>i. zs ! i * fst (a ! i)) [0..<length a]"
    by (rule nth_equalityI) (use assms in \<open>auto simp: case_prod_beta\<close>)
  then show ?thesis by simp
qed

lemma in_range_pairs:
  assumes "length a = length shp"
  shows "(\<forall>(s, x, y)\<in>set (zip shp a). 0 \<le> x \<and> y \<le> s)
       \<longleftrightarrow> (\<forall>i<length a. 0 \<le> fst (a ! i) \<and> snd (a ! i) \<le> shp ! i)"
proof -
  have "set (zip shp a) = (\<lambda>i. (shp ! i, a ! i)) ` {..<length a}"
    using assms by (auto simp: set_zip image_iff)
  then show ?thesis by (auto simp: case_prod_beta)
qed

lemma pairs_lt_index:
  "(\<forall>(x, y)\<in>set a. x < y) \<longleftrightarrow> (\<forall>i<length a. fst (a ! i) < snd (a ! i))"
  by (auto simp: all_set_conv_all_nth case_prod_beta)

text \<open>
  C3 (as stated) fails twice. The constructor zeroes the stride of a dimension that
  shrinks to size 1: \<open>new((3,)).shrink(((1,2),))\<close> has stride \<open>(0,)\<close>, not \<open>(1,)\<close>. And an
  empty window \<open>lo = hi\<close> makes the validity probe take a modulo by 0, which is fatal:
  \<open>new((3,)).shrink(((1,1),))\<close> raises.
\<close>

theorem shrink_strides_counterexample:
  "st_strides (projr (ShapeTracker_init [3])) = [1]
   \<and> shrink (projr (ShapeTracker_init [3])) [(1, 2)]
       = Inr \<lparr>views = [V \<lparr>shape = [1], strides = [0], offset = 1,
            shape_strides = [(1, 0)], contiguous = False\<rparr>]\<rparr>
   \<and> shrink (projr (ShapeTracker_init [3])) [(1, 1)] = Inl AssertionError"
  by code_simp

text \<open>
  C3 (as amended). For a tracker whose top view was built by the constructor and bounds
  with \<open>0 \<le> lo_i < hi_i \<le> shape[i]\<close> in every dimension, \<open>shrink\<close> returns normally and
  replaces the top view: the new shape is \<open>(hi_i - lo_i, ...)\<close>, the strides are unchanged
  except that they are 0 where the new dimension is 1, the offset grows by the sum of
  \<open>strides[i] * lo_i\<close>, no ZeroView is appended, the number of views is unchanged and
  \<open>needs_valid\<close> keeps its value.
\<close>

theorem shrink_in_range:
  assumes top: "views st = vs @ [V v]" and ok: "view_ok v"
    and len: "length a = length (shape v)"
    and rng: "\<forall>i<length a. 0 \<le> fst (a ! i) \<and> fst (a ! i) < snd (a ! i) \<and> snd (a ! i) \<le> shape v ! i"
  shows "\<exists>v'. shrink st a = Inr (st\<lparr>views := vs @ [V v']\<rparr>)
     \<and> shape v' = map (\<lambda>(x, y). y - x) a
     \<and> length (strides v') = length a
     \<and> (\<forall>i<length a. strides v' ! i = (if snd (a ! i) - fst (a ! i) = 1 then 0 else strides v ! i))
     \<and> offset v' = offset v + (\<Sum>i\<leftarrow>[0..<length a]. strides v ! i * fst (a ! i))
     \<and> length (views (st\<lparr>views := vs @ [V v']\<rparr>)) = length (views st)
     \<and> needs_valid (st\<lparr>views := vs @ [V v']\<rparr>) = needs_valid st"
proof -
  have l2: "length (strides v) = length (shape v)" using ok by (rule view_ok_length)
  have pos: "\<forall>(x, y)\<in>set a. x < y" using rng pairs_lt_index by blast
  have inr: "\<forall>(s, x, y)\<in>set (zip (shape v) a). 0 \<le> x \<and> y \<le> s"
    using rng in_range_pairs[OF len] by blast
  obtain v' where vi: "View_init (map (\<lambda>(x, y). y - x) a) (strides v)
                  (offset v + sum_list (map (\<lambda>(z, (x, y)). z * x) (zip (strides v) a))) = Inr v'"
    and r: "shrink st a = Inr (st\<lparr>views := vs @ [V v']\<rparr>)"
    using shrink_result[OF top ok len pos] inr by auto
  note f = View_init_shape[OF vi]
  have sh: "shape v' = map (\<lambda>(x, y). y - x) a" using f by blast
  have ls: "length (strides v') = length a" using f by (metis length_map)
  have sti: "strides v' ! i = (if snd (a ! i) - fst (a ! i) = 1 then 0 else strides v ! i)"
    if "i < length a" for i
    using f that len l2 by (simp add: case_prod_beta)
  have off: "offset v' = offset v + (\<Sum>i\<leftarrow>[0..<length a]. strides v ! i * fst (a ! i))"
    using f sum_zip_strides_index[of "strides v" a] len l2 by simp
  have "length (views (st\<lparr>views := vs @ [V v']\<rparr>)) = length (views st)" using top by simp
  moreover have "needs_valid (st\<lparr>views := vs @ [V v']\<rparr>) = needs_valid st"
    using top by (simp add: needs_valid_def)
  ultimately show ?thesis using r sh ls sti off by blast
qed

theorem shrink_in_range_witness:
  "view_ok \<lparr>shape = [5], strides = [1], offset = 0, shape_strides = [(5, 1)], contiguous = True\<rparr>
   \<and> shrink \<lparr>views = [V \<lparr>shape = [5], strides = [1], offset = 0,
            shape_strides = [(5, 1)], contiguous = True\<rparr>]\<rparr> [(1, 4)]
       = Inr \<lparr>views = [V \<lparr>shape = [3], strides = [1], offset = 1,
            shape_strides = [(3, 1)], contiguous = False\<rparr>]\<rparr>"
proof -
  let ?v = "\<lparr>shape = [5], strides = [1], offset = 0, shape_strides = [(5, 1)], contiguous = True\<rparr>"
  have ok: "view_ok ?v" by code_simp
  have ev: "shrink \<lparr>views = [V ?v]\<rparr> [(1, 4)]
       = Inr \<lparr>views = [V \<lparr>shape = [3], strides = [1], offset = 1,
            shape_strides = [(3, 1)], contiguous = False\<rparr>]\<rparr>" by code_simp
  have "\<exists>v'. shrink \<lparr>views = [V ?v]\<rparr> [(1, 4)] = Inr (\<lparr>views = [V ?v]\<rparr>\<lparr>views := [] @ [V v']\<rparr>)
          \<and> shape v' = map (\<lambda>(x, y). y - x) [(1, 4)]"
    using shrink_in_range[of "\<lparr>views = [V ?v]\<rparr>" "[]" ?v "[(1, 4)]", OF _ ok]
    by simp blast
  with ok ev show ?thesis by simp
qed

text \<open>
  C4 (as stated) fails: \<open>shrink\<close> has no range check. \<open>new((3,)).shrink(((-1,4),))\<close>
  returns normally with the padded tracker.
\<close>

theorem shrink_out_of_range_counterexample:
  "shrink (projr (ShapeTracker_init [3])) [(- 1, 4)]
     = Inr \<lparr>views = [V \<lparr>shape = [5], strides = [1], offset = - 1,
                          shape_strides = [(5, 1)], contiguous = False\<rparr>,
                      Z \<lparr>old_shape = [3], arg = [(- 1, 4)], shape_z = [5],
                          strides_z = [1], contiguous_z = False, offset_z = 0\<rparr>,
                      V \<lparr>shape = [5], strides = [1], offset = 0,
                          shape_strides = [(5, 1)], contiguous = True\<rparr>]\<rparr>"
  by code_simp

lemma foldl_strides_rev:
  "foldl (\<lambda>strides d. (d * hd strides) # strides) [1] (rev t)
     = map (\<lambda>i. prod_list (drop i t)) [0..<Suc (length (t::int list))]"
proof (induction t)
  case Nil
  then show ?case by simp
next
  case (Cons x t)
  let ?sp = "map (\<lambda>i. prod_list (drop i t)) [0..<Suc (length t)]"
  have hd: "hd ?sp = prod_list t" by (simp add: upt_conv_Cons del: upt_Suc)
  have "map (\<lambda>i. prod_list (drop i (x # t))) [0..<Suc (length (x # t))]
      = prod_list (x # t) # map (\<lambda>i. prod_list (drop (Suc i) (x # t))) [0..<Suc (length t)]"
    by (simp add: map_upt_Suc del: upt_Suc)
  also have "\<dots> = (x * hd ?sp) # ?sp" using hd by (simp del: upt_Suc)
  finally show ?case using Cons by (simp del: upt_Suc)
qed

lemma strides_for_shape_nth:
  assumes "shp \<noteq> []"
  shows "length (strides_for_shape shp) = length shp"
    and "\<forall>i<length shp. strides_for_shape shp ! i = prod_list (drop (Suc i) shp)"
proof -
  obtain x t where s: "shp = x # t" using assms by (cases shp) auto
  have "butlast (rev shp) = rev t" using s by simp
  then have e: "strides_for_shape shp = map (\<lambda>i. prod_list (drop i t)) [0..<Suc (length t)]"
    unfolding strides_for_shape_def using foldl_strides_rev by simp
  show "length (strides_for_shape shp) = length shp" using e s by simp
  show "\<forall>i<length shp. strides_for_shape shp ! i = prod_list (drop (Suc i) shp)"
  proof (intro allI impI)
    fix i assume "i < length shp"
    then have i: "i < Suc (length t)" using s by simp
    have "strides_for_shape shp ! i = prod_list (drop i t)"
      unfolding e using i by (simp only: nth_map_upt add_0 length_upt diff_zero)
    then show "strides_for_shape shp ! i = prod_list (drop (Suc i) shp)" using s by simp
  qed
qed

lemma identity_view_strides:
  assumes "View_init ns (strides_for_shape ns) 0 = Inr w" "ns \<noteq> []"
  shows "shape w = ns \<and> offset w = 0 \<and> length (strides w) = length ns
     \<and> (\<forall>i<length ns. strides w ! i = (if ns ! i = 1 then 0 else prod_list (drop (Suc i) ns)))"
proof -
  note f = View_init_shape[OF assms(1)]
  note n = strides_for_shape_nth[OF assms(2)]
  have "strides w ! i = (if ns ! i = 1 then 0 else prod_list (drop (Suc i) ns))"
    if "i < length ns" for i
    using f n that by simp
  moreover have "shape w = ns" "offset w = 0" "length (strides w) = length ns" using f by blast+
  ultimately show ?thesis by blast
qed

lemma identity_view_contiguous:
  assumes "View_init ns (strides_for_shape ns) 0 = Inr w"
  shows "contiguous w"
proof -
  let ?n = "map (\<lambda>(stride, sh). if sh \<noteq> 1 then stride else 0) (zip (strides_for_shape ns) ns)"
  have c: "contiguous w = list_all (\<lambda>(s, s1, s2). s1 = s2 \<or> s = 1)
                             (zip ns (zip ?n (strides_for_shape ns)))"
    using assms by (auto simp: View_init_def Let_def split: sum.splits)
  have "list_all (\<lambda>(s, s1, s2). s1 = s2 \<or> s = 1) (zip ns (zip ?n (strides_for_shape ns)))"
    by (auto simp: list_all_length)
  then show ?thesis using c by simp
qed

lemma shrink_wrong_length:
  assumes top: "views st = vs @ [V v]" and "length b \<noteq> length (shape v)"
  shows "shrink st b = Inl AssertionError"
  using assms by (simp add: shrink_def st_top_simps[OF top])

lemma shrink_pads_general:
  assumes top: "views st = vs @ [V v]" and ok: "view_ok v"
    and len: "length a = length (shape v)"
    and pos: "\<forall>i<length a. fst (a ! i) < snd (a ! i)"
    and out: "\<exists>i<length a. fst (a ! i) < 0 \<or> shape v ! i < snd (a ! i)"
  shows "\<exists>v' w. shrink st a
         = Inr (st\<lparr>views := vs @ [V v', Z (ZeroView_init (shape v) a), V w]\<rparr>)
     \<and> shape v' = map (\<lambda>(x, y). y - x) a
     \<and> (\<forall>i<length a. strides v' ! i = (if snd (a ! i) - fst (a ! i) = 1 then 0 else strides v ! i))
     \<and> offset v' = offset v + (\<Sum>i\<leftarrow>[0..<length a]. strides v ! i * fst (a ! i))
     \<and> old_shape (ZeroView_init (shape v) a) = shape v
     \<and> arg (ZeroView_init (shape v) a) = a
     \<and> view_from_shape (map (\<lambda>(x, y). y - x) a) = Inr w
     \<and> shape w = map (\<lambda>(x, y). y - x) a
     \<and> offset w = 0
     \<and> contiguous w
     \<and> (\<forall>i<length a. strides w ! i =
           (if snd (a ! i) - fst (a ! i) = 1 then 0
            else prod_list (drop (Suc i) (map (\<lambda>(x, y). y - x) a))))
     \<and> needs_valid (st\<lparr>views := vs @ [V v', Z (ZeroView_init (shape v) a), V w]\<rparr>)"
proof -
  let ?ns = "map (\<lambda>(x, y). y - x) a"
  have l2: "length (strides v) = length (shape v)" using ok by (rule view_ok_length)
  have pos': "\<forall>(x, y)\<in>set a. x < y" using pos pairs_lt_index by blast
  have ninr: "\<not> (\<forall>(s, x, y)\<in>set (zip (shape v) a). 0 \<le> x \<and> y \<le> s)"
    using out in_range_pairs[OF len] by (metis not_le)
  have ne: "a \<noteq> []" using out by auto
  obtain v' w where vi: "View_init ?ns (strides v)
                  (offset v + sum_list (map (\<lambda>(z, (x, y)). z * x) (zip (strides v) a))) = Inr v'"
    and wi: "View_init ?ns (strides_for_shape ?ns) 0 = Inr w"
    and r: "shrink st a = Inr (st\<lparr>views := vs @ [V v', Z (ZeroView_init (shape v) a), V w]\<rparr>)"
    using shrink_result[OF top ok len pos'] ninr by auto
  note f = View_init_shape[OF vi]
  have sh: "shape v' = ?ns" using f by blast
  have sti: "\<forall>i<length a. strides v' ! i = (if snd (a ! i) - fst (a ! i) = 1 then 0 else strides v ! i)"
    using f len l2 by (simp add: case_prod_beta)
  have off: "offset v' = offset v + (\<Sum>i\<leftarrow>[0..<length a]. strides v ! i * fst (a ! i))"
    using f sum_zip_strides_index[of "strides v" a] len l2 by simp
  have zv: "old_shape (ZeroView_init (shape v) a) = shape v" "arg (ZeroView_init (shape v) a) = a"
    by (simp_all add: ZeroView_init_def Let_def)
  have vfs: "view_from_shape ?ns = Inr w"
    using wi ne by (simp add: view_from_shape_def)
  have nne: "?ns \<noteq> []" using ne by simp
  note iv = identity_view_strides[OF wi nne]
  have wsh: "shape w = ?ns" "offset w = 0" using iv by blast+
  have wc: "contiguous w" using wi by (rule identity_view_contiguous)
  have wst: "\<forall>i<length a. strides w ! i =
           (if snd (a ! i) - fst (a ! i) = 1 then 0 else prod_list (drop (Suc i) ?ns))"
  proof (intro allI impI)
    fix i assume i: "i < length a"
    then have "strides w ! i = (if ?ns ! i = 1 then 0 else prod_list (drop (Suc i) ?ns))"
      using iv by simp
    moreover have "?ns ! i = snd (a ! i) - fst (a ! i)" using i by (simp add: case_prod_beta)
    ultimately show "strides w ! i =
           (if snd (a ! i) - fst (a ! i) = 1 then 0 else prod_list (drop (Suc i) ?ns))" by simp
  qed
  have nv: "needs_valid (st\<lparr>views := vs @ [V v', Z (ZeroView_init (shape v) a), V w]\<rparr>)"
    by (simp add: needs_valid_def)
  show ?thesis
    apply (rule exI[of _ v'], rule exI[of _ w])
    using r sh sti off zv vfs wsh wc wst nv by (intro conjI)
qed

text \<open>
  C4 (as amended). Calling \<open>shrink\<close> directly with bounds out of range (some
  \<open>lo_i < 0\<close> or some \<open>hi_i > shape[i]\<close>), one non-empty window \<open>lo_i < hi_i\<close> per
  dimension, does not raise: it returns normally with the padded generalisation. The top
  view gets the shape \<open>(hi_i - lo_i, ...)\<close>, the old strides (0 where the new dimension
  is 1) and the offset grown by the sum of \<open>strides[i] * lo_i\<close>; a ZeroView with the old
  shape and the bounds, and an identity view of the new shape (offset 0, row-major strides:
  the product of the later dimensions, 0 where the dimension is 1, contiguous) are appended;
  and \<open>needs_valid\<close> is true. The argument check that \<open>shrink\<close> does make still
  raises: bounds with a number of pairs other than the number of dimensions give an
  assertion error.
\<close>

theorem shrink_out_of_range_pads:
  assumes top: "views st = vs @ [V v]" and ok: "view_ok v"
    and len: "length a = length (shape v)"
    and pos: "\<forall>i<length a. fst (a ! i) < snd (a ! i)"
    and out: "\<exists>i<length a. fst (a ! i) < 0 \<or> shape v ! i < snd (a ! i)"
  shows "(\<exists>v' w. shrink st a
         = Inr (st\<lparr>views := vs @ [V v', Z (ZeroView_init (shape v) a), V w]\<rparr>)
     \<and> shape v' = map (\<lambda>(x, y). y - x) a
     \<and> (\<forall>i<length a. strides v' ! i = (if snd (a ! i) - fst (a ! i) = 1 then 0 else strides v ! i))
     \<and> offset v' = offset v + (\<Sum>i\<leftarrow>[0..<length a]. strides v ! i * fst (a ! i))
     \<and> old_shape (ZeroView_init (shape v) a) = shape v
     \<and> arg (ZeroView_init (shape v) a) = a
     \<and> view_from_shape (map (\<lambda>(x, y). y - x) a) = Inr w
     \<and> shape w = map (\<lambda>(x, y). y - x) a
     \<and> offset w = 0
     \<and> contiguous w
     \<and> (\<forall>i<length a. strides w ! i =
           (if snd (a ! i) - fst (a ! i) = 1 then 0
            else prod_list (drop (Suc i) (map (\<lambda>(x, y). y - x) a))))
     \<and> needs_valid (st\<lparr>views := vs @ [V v', Z (ZeroView_init (shape v) a), V w]\<rparr>))
   \<and> (\<forall>b. length b \<noteq> length (shape v) \<longrightarrow> shrink st b = Inl AssertionError)"
  using shrink_pads_general[OF top ok len pos out] shrink_wrong_length[OF top] by (intro conjI allI impI)

theorem shrink_out_of_range_pads_witness:
  "shrink \<lparr>views = [V \<lparr>shape = [2, 3], strides = [3, 1], offset = 0,
                         shape_strides = [(6, 1)], contiguous = True\<rparr>]\<rparr> [(- 1, 4)]
     = Inl AssertionError
   \<and> view_ok \<lparr>shape = [2, 3], strides = [3, 1], offset = 0,
            shape_strides = [(6, 1)], contiguous = True\<rparr>
   \<and> ShapeTracker_init [2, 3]
       = Inr \<lparr>views = [V \<lparr>shape = [2, 3], strides = [3, 1], offset = 0,
                            shape_strides = [(6, 1)], contiguous = True\<rparr>]\<rparr>
   \<and> shrink \<lparr>views = [V \<lparr>shape = [2, 3], strides = [3, 1], offset = 0,
                         shape_strides = [(6, 1)], contiguous = True\<rparr>]\<rparr> [(- 1, 3), (0, 4)]
     = Inr \<lparr>views = [V \<lparr>shape = [4, 4], strides = [3, 1], offset = - 3,
                          shape_strides = [(4, 3), (4, 1)], contiguous = False\<rparr>,
                      Z \<lparr>old_shape = [2, 3], arg = [(- 1, 3), (0, 4)], shape_z = [4, 4],
                          strides_z = [4, 1], contiguous_z = False, offset_z = 0\<rparr>,
                      V \<lparr>shape = [4, 4], strides = [4, 1], offset = 0,
                          shape_strides = [(16, 1)], contiguous = True\<rparr>]\<rparr>
   \<and> needs_valid \<lparr>views = [V \<lparr>shape = [4, 4], strides = [3, 1], offset = - 3,
                          shape_strides = [(4, 3), (4, 1)], contiguous = False\<rparr>,
                      Z \<lparr>old_shape = [2, 3], arg = [(- 1, 3), (0, 4)], shape_z = [4, 4],
                          strides_z = [4, 1], contiguous_z = False, offset_z = 0\<rparr>,
                      V \<lparr>shape = [4, 4], strides = [4, 1], offset = 0,
                          shape_strides = [(16, 1)], contiguous = True\<rparr>]\<rparr>"
proof -
  let ?v = "\<lparr>shape = [2, 3], strides = [3, 1], offset = 0,
            shape_strides = [(6, 1)], contiguous = True\<rparr>"
  let ?r = "\<lparr>views = [V \<lparr>shape = [4, 4], strides = [3, 1], offset = - 3,
                          shape_strides = [(4, 3), (4, 1)], contiguous = False\<rparr>,
                      Z \<lparr>old_shape = [2, 3], arg = [(- 1, 3), (0, 4)], shape_z = [4, 4],
                          strides_z = [4, 1], contiguous_z = False, offset_z = 0\<rparr>,
                      V \<lparr>shape = [4, 4], strides = [4, 1], offset = 0,
                          shape_strides = [(16, 1)], contiguous = True\<rparr>]\<rparr>"
  let ?a = "[(- 1, 3), (0, 4)] :: (int \<times> int) list"
  have ok: "view_ok ?v" by code_simp
  have ini: "ShapeTracker_init [2, 3] = Inr \<lparr>views = [V ?v]\<rparr>" by code_simp
  have ev: "shrink \<lparr>views = [V ?v]\<rparr> [(- 1, 3), (0, 4)] = Inr ?r" by code_simp
  have pos: "\<forall>i<length ?a. fst (?a ! i) < snd (?a ! i)"
    by (simp add: less_Suc_eq)
  have out: "\<exists>i<length ?a. fst (?a ! i) < 0 \<or> shape ?v ! i < snd (?a ! i)"
    by (rule exI[of _ 0]) simp
  have "\<exists>v' w. shrink \<lparr>views = [V ?v]\<rparr> [(- 1, 3), (0, 4)]
         = Inr (\<lparr>views = [V ?v]\<rparr>\<lparr>views := [] @ [V v', Z (ZeroView_init (shape ?v) [(- 1, 3), (0, 4)]), V w]\<rparr>)
       \<and> needs_valid (\<lparr>views = [V ?v]\<rparr>\<lparr>views := [] @ [V v', Z (ZeroView_init (shape ?v) [(- 1, 3), (0, 4)]), V w]\<rparr>)"
    using shrink_out_of_range_pads[of "\<lparr>views = [V ?v]\<rparr>" "[]" ?v ?a, OF _ ok _ pos out, THEN conjunct1]
    by simp blast
  then have nv: "needs_valid ?r" using ev by auto
  have "\<forall>b. length b \<noteq> length (shape ?v) \<longrightarrow> shrink \<lparr>views = [V ?v]\<rparr> b = Inl AssertionError"
    using shrink_out_of_range_pads[of "\<lparr>views = [V ?v]\<rparr>" "[]" ?v ?a, OF _ ok _ pos out, THEN conjunct2]
    by simp
  then have wl: "shrink \<lparr>views = [V ?v]\<rparr> [(- 1, 4)] = Inl AssertionError" by simp
  from wl ok ini ev nv show ?thesis by simp
qed

text \<open>
  C5. For a tracker whose top view was built by the constructor with all dimensions at
  least 1, and non-negative pad amounts, one pair per dimension, with at least one positive
  entry, \<open>pad\<close> is the generalised \<open>shrink\<close> with bounds
  \<open>((-before_i, shape[i] + after_i), ...)\<close>; it returns normally. The top view gets the
  new shape \<open>(before_i + shape[i] + after_i, ...)\<close>, the old strides (0 where the new
  dimension is 1) and the offset grown by the sum of \<open>strides[i] * (-before_i)\<close>; a
  ZeroView over the old shape with those bounds and a fresh identity view of the new shape
  (offset 0, row-major strides: the product of the later dimensions, 0 where the dimension
  is 1, contiguous) are appended; the logical shape is the new shape and \<open>needs_valid\<close> is true.
\<close>

theorem pad_appends_zeroview:
  assumes top: "views st = vs @ [V v]" and ok: "view_ok v"
    and len: "length a = length (shape v)"
    and shp_pos: "\<forall>d\<in>set (shape v). 1 \<le> d"
    and nonneg: "\<forall>i<length a. 0 \<le> fst (a ! i) \<and> 0 \<le> snd (a ! i)"
    and some: "\<exists>i<length a. 0 < fst (a ! i) \<or> 0 < snd (a ! i)"
  shows "pad st a = shrink st (map (\<lambda>(s, (b, e)). (- b, s + e)) (zip (shape v) a))
     \<and> (\<exists>v' w. pad st a
           = Inr (st\<lparr>views := vs @ [V v',
                    Z (ZeroView_init (shape v) (map (\<lambda>(s, (b, e)). (- b, s + e)) (zip (shape v) a))),
                    V w]\<rparr>)
         \<and> shape v' = map (\<lambda>(s, (b, e)). b + s + e) (zip (shape v) a)
         \<and> (\<forall>i<length a. strides v' ! i =
               (if fst (a ! i) + shape v ! i + snd (a ! i) = 1 then 0 else strides v ! i))
         \<and> offset v' = offset v + (\<Sum>i\<leftarrow>[0..<length a]. strides v ! i * (- fst (a ! i)))
         \<and> old_shape (ZeroView_init (shape v) (map (\<lambda>(s, (b, e)). (- b, s + e)) (zip (shape v) a)))
             = shape v
         \<and> arg (ZeroView_init (shape v) (map (\<lambda>(s, (b, e)). (- b, s + e)) (zip (shape v) a)))
             = map (\<lambda>(s, (b, e)). (- b, s + e)) (zip (shape v) a)
         \<and> view_from_shape (map (\<lambda>(s, (b, e)). b + s + e) (zip (shape v) a)) = Inr w
         \<and> shape w = map (\<lambda>(s, (b, e)). b + s + e) (zip (shape v) a)
         \<and> offset w = 0
         \<and> contiguous w
         \<and> (\<forall>i<length a. strides w ! i =
               (if fst (a ! i) + shape v ! i + snd (a ! i) = 1 then 0
                else prod_list (drop (Suc i) (map (\<lambda>(s, (b, e)). b + s + e) (zip (shape v) a)))))
         \<and> st_shape (st\<lparr>views := vs @ [V v',
                    Z (ZeroView_init (shape v) (map (\<lambda>(s, (b, e)). (- b, s + e)) (zip (shape v) a))),
                    V w]\<rparr>) = map (\<lambda>(s, (b, e)). b + s + e) (zip (shape v) a)
         \<and> needs_valid (st\<lparr>views := vs @ [V v',
                    Z (ZeroView_init (shape v) (map (\<lambda>(s, (b, e)). (- b, s + e)) (zip (shape v) a))),
                    V w]\<rparr>))"
proof -
  define a' where "a' = map (\<lambda>(s, (b, e)). (- b, s + e)) (zip (shape v) a)"
  define ns where "ns = map (\<lambda>(s, (b, e)). b + s + e) (zip (shape v) a)"
  have la': "length a' = length (shape v)" using len by (simp add: a'_def)
  have laa: "length a' = length a" using la' len by simp
  have nth': "a' ! i = (- fst (a ! i), shape v ! i + snd (a ! i))" if "i < length a" for i
    using that len by (simp add: a'_def case_prod_beta)
  have chk: "list_all (\<lambda>(b, e). 0 \<le> b \<and> 0 \<le> e) a"
    using nonneg by (auto simp: list_all_length case_prod_beta)
  have p: "pad st a = shrink st a'"
    using top chk len by (simp add: pad_def st_top_simps[OF top] a'_def)
  have sp: "1 \<le> shape v ! i" if "i < length a" for i
    using shp_pos that len by simp
  have pos: "\<forall>i<length a'. fst (a' ! i) < snd (a' ! i)"
  proof (intro allI impI)
    fix i assume "i < length a'"
    then have i: "i < length a" using laa by simp
    show "fst (a' ! i) < snd (a' ! i)" using nth'[OF i] sp[OF i] nonneg i by auto
  qed
  have out: "\<exists>i<length a'. fst (a' ! i) < 0 \<or> shape v ! i < snd (a' ! i)"
  proof -
    obtain i where i: "i < length a" "0 < fst (a ! i) \<or> 0 < snd (a ! i)" using some by blast
    have "fst (a' ! i) < 0 \<or> shape v ! i < snd (a' ! i)" using nth'[OF i(1)] i(2) by auto
    then show ?thesis using i(1) laa by auto
  qed
  have nseq: "map (\<lambda>(x, y). y - x) a' = ns"
    unfolding ns_def by (rule nth_equalityI) (use len in \<open>auto simp: a'_def case_prod_beta\<close>)
  have diff: "snd (a' ! i) - fst (a' ! i) = fst (a ! i) + shape v ! i + snd (a ! i)"
    if "i < length a" for i
    using nth'[OF that] by simp
  obtain v' w where r: "shrink st a' = Inr (st\<lparr>views := vs @ [V v', Z (ZeroView_init (shape v) a'), V w]\<rparr>)"
    and sh: "shape v' = map (\<lambda>(x, y). y - x) a'"
    and sti: "\<forall>i<length a'. strides v' ! i = (if snd (a' ! i) - fst (a' ! i) = 1 then 0 else strides v ! i)"
    and off: "offset v' = offset v + (\<Sum>i\<leftarrow>[0..<length a']. strides v ! i * fst (a' ! i))"
    and zo: "old_shape (ZeroView_init (shape v) a') = shape v"
    and za: "arg (ZeroView_init (shape v) a') = a'"
    and vfs: "view_from_shape (map (\<lambda>(x, y). y - x) a') = Inr w"
    and wsh: "shape w = map (\<lambda>(x, y). y - x) a'"
    and wof: "offset w = 0"
    and wc: "contiguous w"
    and wst: "\<forall>i<length a'. strides w ! i =
           (if snd (a' ! i) - fst (a' ! i) = 1 then 0
            else prod_list (drop (Suc i) (map (\<lambda>(x, y). y - x) a')))"
    and nv: "needs_valid (st\<lparr>views := vs @ [V v', Z (ZeroView_init (shape v) a'), V w]\<rparr>)"
    using shrink_pads_general[OF top ok la' pos out] by blast
  have sti': "\<forall>i<length a. strides v' ! i =
               (if fst (a ! i) + shape v ! i + snd (a ! i) = 1 then 0 else strides v ! i)"
    using sti diff laa by simp
  have "map (\<lambda>i. strides v ! i * fst (a' ! i)) [0..<length a']
      = map (\<lambda>i. strides v ! i * (- fst (a ! i))) [0..<length a]"
    unfolding laa by (rule map_cong) (use nth' in auto)
  then have off': "offset v' = offset v + (\<Sum>i\<leftarrow>[0..<length a]. strides v ! i * (- fst (a ! i)))"
    using off by simp
  have wst': "\<forall>i<length a. strides w ! i =
               (if fst (a ! i) + shape v ! i + snd (a ! i) = 1 then 0
                else prod_list (drop (Suc i) ns))"
    using wst diff laa unfolding nseq by simp
  have shw: "st_shape (st\<lparr>views := vs @ [V v', Z (ZeroView_init (shape v) a'), V w]\<rparr>) = ns"
    using wsh nseq by (simp add: st_shape_def)
  have r': "pad st a = Inr (st\<lparr>views := vs @ [V v', Z (ZeroView_init (shape v) a'), V w]\<rparr>)"
    using p r by simp
  have ex: "\<exists>v' w. pad st a = Inr (st\<lparr>views := vs @ [V v', Z (ZeroView_init (shape v) a'), V w]\<rparr>)
         \<and> shape v' = ns
         \<and> (\<forall>i<length a. strides v' ! i =
               (if fst (a ! i) + shape v ! i + snd (a ! i) = 1 then 0 else strides v ! i))
         \<and> offset v' = offset v + (\<Sum>i\<leftarrow>[0..<length a]. strides v ! i * (- fst (a ! i)))
         \<and> old_shape (ZeroView_init (shape v) a') = shape v
         \<and> arg (ZeroView_init (shape v) a') = a'
         \<and> view_from_shape ns = Inr w
         \<and> shape w = ns
         \<and> offset w = 0
         \<and> contiguous w
         \<and> (\<forall>i<length a. strides w ! i =
               (if fst (a ! i) + shape v ! i + snd (a ! i) = 1 then 0
                else prod_list (drop (Suc i) ns)))
         \<and> st_shape (st\<lparr>views := vs @ [V v', Z (ZeroView_init (shape v) a'), V w]\<rparr>) = ns
         \<and> needs_valid (st\<lparr>views := vs @ [V v', Z (ZeroView_init (shape v) a'), V w]\<rparr>)"
    apply (rule exI[of _ v'], rule exI[of _ w])
    using r' sh[unfolded nseq] sti' off' zo za vfs[unfolded nseq] wsh[unfolded nseq] wof wc wst' shw nv
    by (intro conjI)
  show ?thesis using p ex unfolding a'_def ns_def by (intro conjI)
qed

theorem pad_appends_zeroview_witness:
  "view_ok \<lparr>shape = [2, 2], strides = [2, 1], offset = 0, shape_strides = [(4, 1)], contiguous = True\<rparr>
   \<and> ShapeTracker_init [2, 2]
       = Inr \<lparr>views = [V \<lparr>shape = [2, 2], strides = [2, 1], offset = 0,
            shape_strides = [(4, 1)], contiguous = True\<rparr>]\<rparr>
   \<and> pad \<lparr>views = [V \<lparr>shape = [2, 2], strides = [2, 1], offset = 0,
            shape_strides = [(4, 1)], contiguous = True\<rparr>]\<rparr> [(1, 1), (1, 1)]
     = Inr \<lparr>views = [V \<lparr>shape = [4, 4], strides = [2, 1], offset = - 3,
                          shape_strides = [(4, 2), (4, 1)], contiguous = False\<rparr>,
                      Z \<lparr>old_shape = [2, 2], arg = [(- 1, 3), (- 1, 3)], shape_z = [4, 4],
                          strides_z = [4, 1], contiguous_z = False, offset_z = 0\<rparr>,
                      V \<lparr>shape = [4, 4], strides = [4, 1], offset = 0,
                          shape_strides = [(16, 1)], contiguous = True\<rparr>]\<rparr>
   \<and> st_shape \<lparr>views = [V \<lparr>shape = [4, 4], strides = [2, 1], offset = - 3,
                          shape_strides = [(4, 2), (4, 1)], contiguous = False\<rparr>,
                      Z \<lparr>old_shape = [2, 2], arg = [(- 1, 3), (- 1, 3)], shape_z = [4, 4],
                          strides_z = [4, 1], contiguous_z = False, offset_z = 0\<rparr>,
                      V \<lparr>shape = [4, 4], strides = [4, 1], offset = 0,
                          shape_strides = [(16, 1)], contiguous = True\<rparr>]\<rparr> = [4, 4]
   \<and> needs_valid \<lparr>views = [V \<lparr>shape = [4, 4], strides = [2, 1], offset = - 3,
                          shape_strides = [(4, 2), (4, 1)], contiguous = False\<rparr>,
                      Z \<lparr>old_shape = [2, 2], arg = [(- 1, 3), (- 1, 3)], shape_z = [4, 4],
                          strides_z = [4, 1], contiguous_z = False, offset_z = 0\<rparr>,
                      V \<lparr>shape = [4, 4], strides = [4, 1], offset = 0,
                          shape_strides = [(16, 1)], contiguous = True\<rparr>]\<rparr>
   \<and> then_op (ShapeTracker_init [3]) pad [(1, 1)]
     = Inr \<lparr>views = [V \<lparr>shape = [5], strides = [1], offset = - 1,
                          shape_strides = [(5, 1)], contiguous = False\<rparr>,
                      Z \<lparr>old_shape = [3], arg = [(- 1, 4)], shape_z = [5],
                          strides_z = [1], contiguous_z = False, offset_z = 0\<rparr>,
                      V \<lparr>shape = [5], strides = [1], offset = 0,
                          shape_strides = [(5, 1)], contiguous = True\<rparr>]\<rparr>
   \<and> st_shape (projr (then_op (ShapeTracker_init [3]) pad [(1, 1)])) = [5]
   \<and> needs_valid (projr (then_op (ShapeTracker_init [3]) pad [(1, 1)]))"
proof -
  let ?v = "\<lparr>shape = [2, 2], strides = [2, 1], offset = 0, shape_strides = [(4, 1)], contiguous = True\<rparr>"
  let ?r = "\<lparr>views = [V \<lparr>shape = [4, 4], strides = [2, 1], offset = - 3,
                          shape_strides = [(4, 2), (4, 1)], contiguous = False\<rparr>,
                      Z \<lparr>old_shape = [2, 2], arg = [(- 1, 3), (- 1, 3)], shape_z = [4, 4],
                          strides_z = [4, 1], contiguous_z = False, offset_z = 0\<rparr>,
                      V \<lparr>shape = [4, 4], strides = [4, 1], offset = 0,
                          shape_strides = [(16, 1)], contiguous = True\<rparr>]\<rparr>"
  let ?p = "[(1, 1), (1, 1)] :: (int \<times> int) list"
  have ok: "view_ok ?v" by code_simp
  have ini: "ShapeTracker_init [2, 2] = Inr \<lparr>views = [V ?v]\<rparr>" by code_simp
  have ev: "pad \<lparr>views = [V ?v]\<rparr> [(1, 1), (1, 1)] = Inr ?r" by code_simp
  have one: "then_op (ShapeTracker_init [3]) pad [(1, 1)]
     = Inr \<lparr>views = [V \<lparr>shape = [5], strides = [1], offset = - 1,
                          shape_strides = [(5, 1)], contiguous = False\<rparr>,
                      Z \<lparr>old_shape = [3], arg = [(- 1, 4)], shape_z = [5],
                          strides_z = [1], contiguous_z = False, offset_z = 0\<rparr>,
                      V \<lparr>shape = [5], strides = [1], offset = 0,
                          shape_strides = [(5, 1)], contiguous = True\<rparr>]\<rparr>" by code_simp
  have one': "st_shape (projr (then_op (ShapeTracker_init [3]) pad [(1, 1)])) = [5]
      \<and> needs_valid (projr (then_op (ShapeTracker_init [3]) pad [(1, 1)]))" by code_simp
  have nonneg: "\<forall>i<length ?p. 0 \<le> fst (?p ! i) \<and> 0 \<le> snd (?p ! i)"
    by (simp add: less_Suc_eq)
  have some: "\<exists>i<length ?p. 0 < fst (?p ! i) \<or> 0 < snd (?p ! i)"
    by (rule exI[of _ 0]) simp
  have "\<exists>v' w. pad \<lparr>views = [V ?v]\<rparr> [(1, 1), (1, 1)]
           = Inr (\<lparr>views = [V ?v]\<rparr>\<lparr>views := [] @ [V v',
                    Z (ZeroView_init (shape ?v) (map (\<lambda>(s, (b, e)). (- b, s + e)) (zip (shape ?v) [(1, 1), (1, 1)]))),
                    V w]\<rparr>)
         \<and> st_shape (\<lparr>views = [V ?v]\<rparr>\<lparr>views := [] @ [V v',
                    Z (ZeroView_init (shape ?v) (map (\<lambda>(s, (b, e)). (- b, s + e)) (zip (shape ?v) [(1, 1), (1, 1)]))),
                    V w]\<rparr>) = map (\<lambda>(s, (b, e)). b + s + e) (zip (shape ?v) [(1, 1), (1, 1)])
         \<and> needs_valid (\<lparr>views = [V ?v]\<rparr>\<lparr>views := [] @ [V v',
                    Z (ZeroView_init (shape ?v) (map (\<lambda>(s, (b, e)). (- b, s + e)) (zip (shape ?v) [(1, 1), (1, 1)]))),
                    V w]\<rparr>)"
    using pad_appends_zeroview[of "\<lparr>views = [V ?v]\<rparr>" "[]" ?v ?p,
             OF _ ok _ _ nonneg some, THEN conjunct2]
    by simp blast
  then have "st_shape ?r = [4, 4] \<and> needs_valid ?r" using ev by auto
  with ok ini ev one one' show ?thesis by simp
qed

lemma bounds_sound:
  "node_ok env e \<Longrightarrow> nmin e \<le> eval env e \<and> eval env e \<le> nmax e"
proof (induction e)
  case (NumNode c)
  then show ?case by (simp add: nmin_def nmax_def)
next
  case (Variable n lo hi)
  then show ?case by (simp add: nmin_def nmax_def)
next
  case (MulNode a b)
  then have ih: "nmin a \<le> eval env a" "eval env a \<le> nmax a" by simp_all
  show ?case
  proof (cases "0 \<le> b")
    case True
    then show ?thesis using ih by (simp add: nmin_def nmax_def mult_right_mono)
  next
    case False
    then have "b \<le> 0" by simp
    then show ?thesis using ih False by (simp add: nmin_def nmax_def mult_right_mono_neg)
  qed
next
  case (DivNode a b)
  then have ih: "nmin a \<le> eval env a" "eval env a \<le> nmax a" and b: "0 < b" by simp_all
  show ?case using ih b by (simp add: nmin_def nmax_def zdiv_mono1)
next
  case (ModNode a b)
  then have b: "0 < b" by simp
  then show ?case by (simp add: nmin_def nmax_def)
next
  case (SumNode xs)
  then have ih: "\<And>x. x \<in> set xs \<Longrightarrow> nmin x \<le> eval env x \<and> eval env x \<le> nmax x"
    by (simp add: list_all_iff)
  have "sum_list (map nmin xs) \<le> sum_list (map (eval env) xs)"
    by (rule sum_list_mono) (use ih in auto)
  moreover have "sum_list (map (eval env) xs) \<le> sum_list (map nmax xs)"
    by (rule sum_list_mono) (use ih in auto)
  ultimately show ?case by (simp add: nmin_def[abs_def] nmax_def[abs_def])
next
  case (AndNode xs)
  then show ?case by (simp add: nmin_def nmax_def)
next
  case (LtNode a b)
  then show ?case by (simp add: nmin_def nmax_def)
next
  case (GeNode a b)
  then show ?case by (simp add: nmin_def nmax_def)
qed

lemma mul_node_eval: "eval env (mul_node e k) = eval env e * k"
proof (induction e k rule: mul_node.induct)
  case (1 xs k)
  have "sum_list (map (\<lambda>x. eval env (mul_node x k)) xs) = sum_list (map (\<lambda>x. eval env x * k) xs)"
    if "k \<noteq> 0" "k \<noteq> 1"
    by (rule arg_cong[where f=sum_list], rule map_cong) (use 1 that in auto)
  then show ?case by (auto simp: sum_list_mult_const comp_def)
qed (auto simp: algebra_simps)

lemma mul_node_ok: "node_ok env e \<Longrightarrow> node_ok env (mul_node e k)"
proof (induction e k rule: mul_node.induct)
  case (1 xs k)
  then show ?case by (auto simp: list_all_iff)
qed auto

lemma var_eval: "lo \<le> env n \<Longrightarrow> env n \<le> hi \<Longrightarrow> eval env (var n lo hi) = env n \<and> node_ok env (var n lo hi)"
  by (auto simp: var_def)

lemma flatten_sums_eval: "sum_list (map (eval env) (flatten_sums xs)) = sum_list (map (eval env) xs)"
  by (induction xs rule: flatten_sums.induct) auto

lemma flatten_sums_ok: "list_all (node_ok env) xs \<Longrightarrow> list_all (node_ok env) (flatten_sums xs)"
  by (induction xs rule: flatten_sums.induct) auto

lemma var_term_eval: "var_term x = Some (v, k) \<Longrightarrow> eval env x = eval env v * k"
  by (induction x rule: var_term.induct) auto

lemma var_term_ok: "var_term x = Some (v, k) \<Longrightarrow> node_ok env x \<Longrightarrow> node_ok env v"
  by (induction x rule: var_term.induct) auto

lemma var_term_not_num: "is_NumNode x \<Longrightarrow> var_term x = None"
  by (cases x) auto

lemma num_value_eval: "is_NumNode x \<Longrightarrow> eval env x = num_value x"
  by (cases x) auto

lemma split_sum:
  "sum_list (map (eval env) ys)
     = sum_list (map num_value (filter is_NumNode ys))
       + terms_value env (List.map_filter var_term ys)
       + sum_list (map (eval env) (filter (\<lambda>x. \<not> is_NumNode x \<and> var_term x = None) ys))"
proof (induction ys)
  case Nil
  then show ?case by (simp add: terms_value_def List.map_filter_simps)
next
  case (Cons x ys)
  show ?case
  proof (cases "is_NumNode x")
    case True
    then show ?thesis using Cons var_term_not_num[OF True] num_value_eval[OF True, of env]
      by (simp add: terms_value_def List.map_filter_simps)
  next
    case False
    show ?thesis
    proof (cases "var_term x")
      case None
      then show ?thesis using Cons False by (simp add: terms_value_def List.map_filter_simps)
    next
      case (Some t)
      obtain v k where t: "t = (v, k)" by (cases t)
      then show ?thesis using Cons False Some var_term_eval[of x v k env]
        by (simp add: terms_value_def List.map_filter_simps)
    qed
  qed
qed

lemma add_term_value: "terms_value env (add_term t ts) = eval env (fst t) * snd t + terms_value env ts"
proof (induction t ts rule: add_term.induct)
  case (1 a k)
  then show ?case by (simp add: terms_value_def)
next
  case (2 a k b j ts)
  then show ?case by (auto simp: terms_value_def algebra_simps)
qed

lemma foldl_add_term_value:
  "terms_value env (foldl (\<lambda>ts t. add_term t ts) acc us) = terms_value env acc + terms_value env us"
proof (induction us arbitrary: acc)
  case Nil
  then show ?case by (simp add: terms_value_def)
next
  case (Cons u us)
  have "terms_value env (u # us) = eval env (fst u) * snd u + terms_value env us"
    by (cases u) (simp add: terms_value_def)
  then show ?case using Cons[of "add_term u acc"] by (simp add: add_term_value)
qed

lemma group_vars_value: "terms_value env (group_vars ys) = terms_value env (List.map_filter var_term ys)"
  by (simp add: group_vars_def foldl_add_term_value) (simp add: terms_value_def)

lemma add_term_fst: "fst ` set (add_term t ts) \<subseteq> insert (fst t) (fst ` set ts)"
  by (induction t ts rule: add_term.induct) auto

lemma foldl_add_term_fst:
  "fst ` set (foldl (\<lambda>ts t. add_term t ts) acc us) \<subseteq> fst ` set acc \<union> fst ` set us"
proof (induction us arbitrary: acc)
  case Nil
  then show ?case by simp
next
  case (Cons u us)
  have "fst ` set (foldl (\<lambda>ts t. add_term t ts) (add_term u acc) us)
          \<subseteq> fst ` set (add_term u acc) \<union> fst ` set us" by (rule Cons)
  also have "\<dots> \<subseteq> insert (fst u) (fst ` set acc) \<union> fst ` set us"
    using add_term_fst[of u acc] by blast
  finally show ?case by auto
qed

lemma group_vars_ok:
  assumes "list_all (node_ok env) ys" and "(v, k) \<in> set (group_vars ys)"
  shows "node_ok env v"
proof -
  have "v \<in> fst ` set (group_vars ys)" using assms(2) by force
  then have "v \<in> fst ` set (List.map_filter var_term ys)"
    using foldl_add_term_fst[of "[]" "List.map_filter var_term ys"] by (auto simp: group_vars_def)
  then obtain k' where "(v, k') \<in> set (List.map_filter var_term ys)" by auto
  then obtain x where "x \<in> set ys" "var_term x = Some (v, k')"
    by (auto simp: List.map_filter_def)
  then show ?thesis using assms(1) var_term_ok by (auto simp: list_all_iff)
qed

lemma scaled_value:
  "sum_list (map (eval env) (map (\<lambda>(v, k). mul_node v k) (filter (\<lambda>(v, k). k \<noteq> 0) ts)))
     = terms_value env ts"
  by (induction ts) (auto simp: terms_value_def mul_node_eval)

lemma collapse_eval:
  "eval env (case nodes of [] \<Rightarrow> NumNode 0 | [x] \<Rightarrow> x | _ \<Rightarrow> SumNode nodes)
     = sum_list (map (eval env) nodes)"
  by (cases nodes rule: list.exhaust[case_product list.exhaust]) (auto split: list.splits)

lemma collapse_ok:
  "list_all (node_ok env) nodes \<Longrightarrow>
   node_ok env (case nodes of [] \<Rightarrow> NumNode 0 | [x] \<Rightarrow> x | _ \<Rightarrow> SumNode nodes)"
  by (auto split: list.splits)

lemma sum_nodes_eval: "eval env (sum_nodes xs) = sum_list (map (eval env) xs)"
proof -
  let ?flat = "flatten_sums xs"
  let ?c = "sum_list (map num_value (filter is_NumNode ?flat))"
  let ?vars = "map (\<lambda>(v, k). mul_node v k) (filter (\<lambda>(v, k). k \<noteq> 0) (group_vars ?flat))"
  let ?others = "filter (\<lambda>x. \<not> is_NumNode x \<and> var_term x = None) ?flat"
  let ?nodes = "?vars @ ?others @ (if ?c = 0 then [] else [NumNode ?c])"
  have "eval env (sum_nodes xs) = sum_list (map (eval env) ?nodes)"
    unfolding sum_nodes_def Let_def by (rule collapse_eval)
  also have "\<dots> = terms_value env (group_vars ?flat) + sum_list (map (eval env) ?others) + ?c"
    using scaled_value[of env "group_vars ?flat"] by simp
  also have "\<dots> = sum_list (map (eval env) ?flat)"
    using split_sum[of env ?flat] by (simp add: group_vars_value)
  finally show ?thesis by (simp add: flatten_sums_eval)
qed

lemma sum_nodes_ok:
  assumes "list_all (node_ok env) xs"
  shows "node_ok env (sum_nodes xs)"
proof -
  let ?flat = "flatten_sums xs"
  let ?c = "sum_list (map num_value (filter is_NumNode ?flat))"
  let ?vars = "map (\<lambda>(v, k). mul_node v k) (filter (\<lambda>(v, k). k \<noteq> 0) (group_vars ?flat))"
  let ?others = "filter (\<lambda>x. \<not> is_NumNode x \<and> var_term x = None) ?flat"
  let ?nodes = "?vars @ ?others @ (if ?c = 0 then [] else [NumNode ?c])"
  have fl: "list_all (node_ok env) ?flat" using assms by (rule flatten_sums_ok)
  have "list_all (node_ok env) ?vars"
    using group_vars_ok[OF fl] mul_node_ok by (auto simp: list_all_iff)
  moreover have "list_all (node_ok env) ?others" using fl by (auto simp: list_all_iff)
  ultimately have "list_all (node_ok env) ?nodes" by simp
  then show ?thesis unfolding sum_nodes_def Let_def by (rule collapse_ok)
qed

lemma reduce_by_eval: "multiple_of k x \<Longrightarrow> eval env x = eval env (reduce_by k x) * k"
  by (induction k x rule: multiple_of.induct) (auto simp: mul_node_eval mult.assoc)

lemma reduce_by_ok: "node_ok env x \<Longrightarrow> node_ok env (reduce_by k x)"
  by (induction k x rule: reduce_by.induct) (auto simp: mul_node_ok)

lemma multiples_sum:
  "list_all (multiple_of k) xs \<Longrightarrow>
   sum_list (map (eval env) xs) = sum_list (map (eval env) (map (reduce_by k) xs)) * k"
proof (induction xs)
  case Nil
  then show ?case by simp
next
  case (Cons x xs)
  have "eval env x = eval env (reduce_by k x) * k"
    using Cons.prems by (simp add: reduce_by_eval)
  then show ?case using Cons by (simp add: algebra_simps)
qed

lemma small_div_mod:
  assumes "node_ok env e" "nmax e < k" "0 \<le> nmin e"
  shows "eval env e div k = 0" "eval env e mod k = eval env e"
  using bounds_sound[OF assms(1)] assms(2,3) by (auto simp: div_pos_pos_trivial)

lemma div_node_eval:
  assumes "div_node e k = Inr q" and "node_ok env e"
  shows "eval env q = eval env e div k \<and> node_ok env q"
proof -
  have k: "0 < k" using assms(1) by (auto simp: div_node_def split: if_splits)
  show ?thesis
  proof (cases "nmax e < k \<and> 0 \<le> nmin e")
    case True
    then have "q = NumNode 0" using assms(1) k by (simp add: div_node_def)
    then show ?thesis using small_div_mod(1)[OF assms(2)] True by simp
  next
    case False
    show ?thesis
    proof (cases "\<exists>xs. e = SumNode xs \<and> list_all (multiple_of k) xs")
      case True
      then obtain xs where e: "e = SumNode xs" and m: "list_all (multiple_of k) xs" by blast
      have q: "q = sum_nodes (map (reduce_by k) xs)"
        using assms(1) k False e m by (auto simp: div_node_def split: if_splits)
      have "eval env e = eval env q * k"
        using multiples_sum[OF m, of env] e q by (simp add: sum_nodes_eval)
      then have "eval env e div k = eval env q" using k by simp
      moreover have "node_ok env q"
        unfolding q by (rule sum_nodes_ok) (use assms(2) e reduce_by_ok in \<open>auto simp: list_all_iff\<close>)
      ultimately show ?thesis by simp
    next
      case F2: False
      then have "q = DivNode e k"
        using assms(1) k False by (auto simp: div_node_def split: Node.splits if_splits)
      then show ?thesis using k assms(2) by simp
    qed
  qed
qed

lemma mod_node_eval:
  "mod_node e k = Inr q \<Longrightarrow> node_ok env e \<Longrightarrow> eval env q = eval env e mod k \<and> node_ok env q"
proof (induction e k arbitrary: q rule: mod_node.induct)
  case (1 xs k)
  then have k: "0 < k" by (auto split: if_splits)
  show ?case
  proof (cases "nmax (SumNode xs) < k \<and> 0 \<le> nmin (SumNode xs)")
    case True
    then have "q = SumNode xs" using 1 k by simp
    then show ?thesis using small_div_mod(2)[OF "1.prems"(2)] True "1.prems"(2) by simp
  next
    case False
    show ?thesis
    proof (cases "list_all (multiple_of k) xs")
      case True
      then have "q = NumNode 0" using 1 k False by simp
      moreover have "eval env (SumNode xs) mod k = 0"
        using multiples_sum[OF True, of env] by simp
      ultimately show ?thesis by simp
    next
      case F2: False
      then have "q = ModNode (SumNode xs) k" using 1 k False by simp
      then show ?thesis using k "1.prems"(2) by simp
    qed
  qed
next
  case (2 e k2 k)
  then have k: "0 < k" by (auto split: if_splits)
  have oke: "node_ok env e" and k2: "0 < k2" using "2.prems"(2) by simp_all
  show ?case
  proof (cases "nmax (ModNode e k2) < k \<and> 0 \<le> nmin (ModNode e k2)")
    case True
    then have "q = ModNode e k2" using "2.prems"(1) k by simp
    then show ?thesis using small_div_mod(2)[OF "2.prems"(2)] True "2.prems"(2) by simp
  next
    case False
    show ?thesis
    proof (cases "k \<le> k2 \<and> k2 mod k = 0")
      case True
      then have r: "mod_node e k = Inr q" using "2.prems"(1) k False by simp
      have "\<not> k \<le> 0" using k by simp
      from "2.IH"[OF this False _ r oke] True
      have ih: "eval env q = eval env e mod k \<and> node_ok env q" by simp
      have "k dvd k2" using True by auto
      then have "(eval env e mod k2) mod k = eval env e mod k" by (rule mod_mod_cancel)
      then show ?thesis using ih by simp
    next
      case F2: False
      then have "q = ModNode (ModNode e k2) k" using "2.prems"(1) k False by auto
      then show ?thesis using k "2.prems"(2) by simp
    qed
  qed
qed (auto split: if_splits dest: small_div_mod(2)[rotated -1])

lemma to_shape_strides_loop_pos:
  "ret \<noteq> [] \<Longrightarrow> \<forall>p\<in>set ret. 0 < fst p \<Longrightarrow> \<forall>p\<in>set rest. 0 < fst p
   \<Longrightarrow> \<forall>p\<in>set (to_shape_strides_loop ret rest). 0 < fst p"
proof (induction rest arbitrary: ret)
  case Nil
  then show ?case by simp
next
  case (Cons q rest)
  obtain sh st where q: "q = (sh, st)" by (cases q)
  have sh: "0 < sh" using Cons.prems(3) q by simp
  have rest: "\<forall>p\<in>set rest. 0 < fst p" using Cons.prems(3) by simp
  have lastin: "last ret \<in> set ret" using Cons.prems(1) by simp
  have lastpos: "0 < fst (last ret)" using Cons.prems(2) lastin by blast
  have bl: "\<forall>p\<in>set (butlast ret). 0 < fst p"
    using Cons.prems(2) in_set_butlastD by fast
  have m1: "\<forall>p\<in>set (butlast ret @ [(fst (last ret) * sh, st)]). 0 < fst p"
    using bl lastpos sh by simp
  have m2: "\<forall>p\<in>set (ret @ [(sh, st)]). 0 < fst p"
    using Cons.prems(2) sh by simp
  have r1: "\<forall>p\<in>set (to_shape_strides_loop (butlast ret @ [(fst (last ret) * sh, st)]) rest). 0 < fst p"
    by (rule Cons.IH[OF _ m1 rest]) simp
  have r2: "\<forall>p\<in>set (to_shape_strides_loop (ret @ [(sh, st)]) rest). 0 < fst p"
    by (rule Cons.IH[OF _ m2 rest]) simp
  show ?case unfolding q to_shape_strides_loop.simps using r1 r2 by presburger
qed

lemma View_init_shape_strides:
  "View_init shp strds off = Inr w \<Longrightarrow>
   to_shape_strides shp (map (\<lambda>(stride, sh). if sh \<noteq> 1 then stride else 0) (zip strds shp))
     = Inr (shape_strides w)"
  by (auto simp: View_init_def Let_def split: sum.splits)

lemma shape_strides_pos:
  assumes "view_ok v" "list_all (\<lambda>d. 1 \<le> d) (shape v)"
  shows "\<forall>p\<in>set (shape_strides v). 0 < fst p"
proof -
  have l: "length (strides v) = length (shape v)" using assms(1) by (rule view_ok_length)
  have n: "map (\<lambda>(stride, sh). if sh \<noteq> 1 then stride else 0) (zip (strides v) (shape v)) = strides v"
    using assms(1) by (rule view_ok_norm)
  have ss: "to_shape_strides (shape v) (strides v) = Inr (shape_strides v)"
  proof -
    have "View_init (shape v) (strides v) (offset v) = Inr v" using assms(1) by (simp add: view_ok_def)
    from View_init_shape_strides[OF this] show ?thesis unfolding n .
  qed
  have zpos: "\<forall>p\<in>set (zip (shape v) (strides v)). 0 < fst p"
    using assms(2) by (auto simp: list_all_iff dest!: set_zip_leftD) 
  show ?thesis
  proof (cases "zip (shape v) (strides v)")
    case Nil
    then have "to_shape_strides (shape v) (strides v) = Inr []"
      using l by (auto simp: to_shape_strides_def split: list.splits)
    then have "shape_strides v = []" using ss by simp
    then show ?thesis by simp
  next
    case (Cons p rest)
    then have "shape_strides v = to_shape_strides_loop [p] rest"
      using ss l by (simp add: to_shape_strides_def)
    moreover have "\<forall>q\<in>set (to_shape_strides_loop [p] rest). 0 < fst q"
      by (rule to_shape_strides_loop_pos) (use zpos Cons in auto)
    ultimately show ?thesis by simp
  qed
qed

lemma view_loop_sound:
  assumes "0 < acc" "\<forall>p\<in>set ps. 0 < fst p" "node_ok env idx" "list_all (node_ok env) ret"
  shows "\<exists>ret'. View_expr_node_loop idx ps ret acc = Inr ret'
     \<and> list_all (node_ok env) ret'
     \<and> sum_list (map (eval env) ret')
         = sum_list (map (eval env) ret) + naive_digits (eval env idx) ps acc"
  using assms
proof (induction ps arbitrary: ret acc)
  case Nil
  then show ?case by simp
next
  case (Cons p ps)
  obtain d s where p: "p = (d, s)" by (cases p)
  have d: "0 < d" using Cons.prems(2) p by simp
  have acc': "0 < acc * d" using Cons.prems(1) d by simp
  have rest: "\<forall>p\<in>set ps. 0 < fst p" using Cons.prems(2) by simp
  show ?case
  proof (cases "d \<noteq> 1 \<and> s \<noteq> 0")
    case True
    obtain q where q: "div_node idx acc = Inr q" using div_node_Inr[OF Cons.prems(1)] by blast
    obtain m where m: "mod_node q d = Inr m" using mod_node_Inr[OF d] by blast
    note qe = div_node_eval[OF q Cons.prems(3)]
    note me = mod_node_eval[OF m qe[THEN conjunct2]]
    have ok': "list_all (node_ok env) (ret @ [mul_node m s])"
      using Cons.prems(4) me mul_node_ok by simp
    obtain ret' where r: "View_expr_node_loop idx ps (ret @ [mul_node m s]) (acc * d) = Inr ret'"
      and rok: "list_all (node_ok env) ret'"
      and rs: "sum_list (map (eval env) ret')
         = sum_list (map (eval env) (ret @ [mul_node m s])) + naive_digits (eval env idx) ps (acc * d)"
      using Cons.IH[OF acc' rest Cons.prems(3) ok'] by blast
    have "eval env (mul_node m s) = ((eval env idx div acc) mod d) * s"
      using qe me by (simp add: mul_node_eval)
    then show ?thesis using True p q m r rok rs by simp
  next
    case False
    obtain ret' where r: "View_expr_node_loop idx ps ret (acc * d) = Inr ret'"
      and rok: "list_all (node_ok env) ret'"
      and rs: "sum_list (map (eval env) ret')
         = sum_list (map (eval env) ret) + naive_digits (eval env idx) ps (acc * d)"
      using Cons.IH[OF acc' rest Cons.prems(3,4)] by blast
    have "((eval env idx div acc) mod d) * s = 0" using False by auto
    then show ?thesis using False p r rok rs by auto
  qed
qed

lemma View_expr_node_sound:
  assumes "view_ok v" "list_all (\<lambda>d. 1 \<le> d) (shape v)" "node_ok env idx"
  shows "\<exists>e. View_expr_node v (Some idx) = Inr e \<and> node_ok env e
     \<and> eval env e = naive_view v (eval env idx)"
proof -
  have pos: "\<forall>p\<in>set (rev (shape_strides v)). 0 < fst p"
    using shape_strides_pos[OF assms(1,2)] by simp
  obtain ret' where r: "View_expr_node_loop idx (rev (shape_strides v)) [num (offset v)] 1 = Inr ret'"
    and rok: "list_all (node_ok env) ret'"
    and rs: "sum_list (map (eval env) ret')
         = sum_list (map (eval env) [num (offset v)]) + naive_digits (eval env idx) (rev (shape_strides v)) 1"
    using view_loop_sound[OF zero_less_one pos assms(3), of "[num (offset v)]"] by (auto simp: num_def)
  have "View_expr_node v (Some idx) = Inr (sum_nodes ret')" using r by (simp add: View_expr_node_def)
  moreover have "node_ok env (sum_nodes ret')" using rok by (rule sum_nodes_ok)
  moreover have "eval env (sum_nodes ret') = naive_view v (eval env idx)"
    using rs by (simp add: sum_nodes_eval naive_view_def num_def)
  ultimately show ?thesis by blast
qed

lemma zv_loop_Inr:
  assumes "0 < acc" "\<forall>t\<in>set ts. 0 < fst (snd t)"
  shows "\<exists>r. ZeroView_expr_node_loop idx ts expr acc = Inr r"
  using assms
proof (induction ts arbitrary: acc expr)
  case Nil
  then show ?case by simp
next
  case (Cons t ts)
  obtain s ns x y where t: "t = (s, ns, x, y)" by (cases t) auto
  have ns: "0 < ns" using Cons.prems(2) t by simp
  obtain q where q: "div_node idx acc = Inr q" using div_node_Inr[OF Cons.prems(1)] by blast
  obtain m where m: "mod_node q ns = Inr m" using mod_node_Inr[OF ns] by blast
  have "0 < acc * ns" using Cons.prems(1) ns by simp
  then show ?case using Cons.IH[of "acc * ns"] Cons.prems(2) t q m by (simp add: Let_def)
qed

lemma ZeroView_expr_node_Inr:
  assumes "list_all (\<lambda>d. 1 \<le> d) (shape_z z)"
  shows "\<exists>r. ZeroView_expr_node z (Some idx) (Some valid) = Inr r"
proof -
  have "\<forall>t\<in>set (rev (zip (old_shape z) (zip (shape_z z) (arg z)))). 0 < fst (snd t)"
  proof
    fix t assume "t \<in> set (rev (zip (old_shape z) (zip (shape_z z) (arg z))))"
    then have "(fst t, snd t) \<in> set (zip (old_shape z) (zip (shape_z z) (arg z)))" by simp
    then have "snd t \<in> set (zip (shape_z z) (arg z))" by (rule set_zip_rightD)
    then have "(fst (snd t), snd (snd t)) \<in> set (zip (shape_z z) (arg z))" by simp
    then have "fst (snd t) \<in> set (shape_z z)" by (rule set_zip_leftD)
    then show "0 < fst (snd t)" using assms by (auto simp: list_all_iff)
  qed
  from zv_loop_Inr[OF zero_less_one this]
  obtain r where "ZeroView_expr_node_loop idx (rev (zip (old_shape z) (zip (shape_z z) (arg z)))) [valid] 1 = Inr r"
    by blast
  then show ?thesis by (simp add: ZeroView_expr_node_def)
qed

lemma expr_idx_loop_sound:
  assumes "list_all view_types_ok ws" "node_ok env idx"
  shows "\<exists>e valid'. expr_idx_loop ws idx valid = Inr (e, valid')
     \<and> eval env e = naive_walk ws (eval env idx)"
  using assms
proof (induction ws arbitrary: idx valid)
  case Nil
  then show ?case by simp
next
  case (Cons w ws)
  show ?case
  proof (cases w)
    case (V v)
    then have vok: "view_ok v" "list_all (\<lambda>d. 1 \<le> d) (shape v)" using Cons.prems(1) by simp_all
    obtain e1 where e1: "View_expr_node v (Some idx) = Inr e1" and ok1: "node_ok env e1"
      and ev1: "eval env e1 = naive_view v (eval env idx)"
      using View_expr_node_sound[OF vok Cons.prems(2)] by blast
    have "list_all view_types_ok ws" using Cons.prems(1) by simp
    from Cons.IH[OF this ok1, of valid]
    show ?thesis using V e1 ev1 by simp
  next
    case (Z z)
    then have "list_all (\<lambda>d. 1 \<le> d) (shape_z z)" using Cons.prems(1) by simp
    then obtain r where r: "ZeroView_expr_node z (Some idx) (Some valid) = Inr r"
      using ZeroView_expr_node_Inr by blast
    have "list_all view_types_ok ws" using Cons.prems(1) by simp
    from Cons.IH[OF this Cons.prems(2), of r]
    show ?thesis using Z r by simp
  qed
qed

lemma top_expr_sound:
  assumes ok: "view_ok v" and len: "length idxs = length (shape v)"
    and bnd: "\<forall>i<length idxs. 0 \<le> env (idxs ! i) \<and> env (idxs ! i) \<le> shape v ! i - 1"
  shows "node_ok env (View_expr_idxs v idxs off)
     \<and> eval env (View_expr_idxs v idxs off) = naive_top v (map env idxs) off"
proof -
  have l2: "length (strides v) = length (shape v)" using ok by (rule view_ok_length)
  let ?zs = "zip idxs (zip (shape v) (strides v))"
  let ?P = "\<lambda>(idx, sh, st). sh \<noteq> 1 \<and> st \<noteq> (0::int)"
  let ?f = "\<lambda>(idx, sh, st). mul_node (var idx 0 (sh - 1)) st"
  let ?g = "\<lambda>(idx, sh, st). env idx * st"
  have elem: "0 \<le> env idx \<and> env idx \<le> sh - 1 \<and> (sh = 1 \<longrightarrow> st = 0)"
    if "(idx, sh, st) \<in> set ?zs" for idx sh st
  proof -
    from that obtain i where i: "i < length ?zs" "?zs ! i = (idx, sh, st)"
      unfolding in_set_conv_nth by blast
    then have il: "i < length idxs" using len l2 by simp
    have eq: "idx = idxs ! i" "sh = shape v ! i" "st = strides v ! i"
      using i il len l2 by auto
    have "sh = 1 \<longrightarrow> st = 0" using view_ok_stride_zero[OF ok, of i] il len eq by simp
    then show ?thesis using bnd il eq by simp
  qed
  have each: "eval env (?f z) = ?g z \<and> node_ok env (?f z)" if "z \<in> set ?zs" for z
  proof -
    obtain idx sh st where z: "z = (idx, sh, st)" by (cases z) auto
    have b: "0 \<le> env idx" "env idx \<le> sh - 1" using elem that z by blast+
    show ?thesis using var_eval[of 0 env idx "sh - 1"] b z by (simp add: mul_node_eval mul_node_ok)
  qed
  have zero: "?g z = 0" if "z \<in> set ?zs" "\<not> ?P z" for z
  proof -
    obtain idx sh st where z: "z = (idx, sh, st)" by (cases z) auto
    show ?thesis using elem that z by auto
  qed
  have m1: "map (eval env) (map ?f (filter ?P ?zs)) = map ?g (filter ?P ?zs)"
    unfolding map_map by (rule map_cong) (use each in auto)
  have "sum_list (map ?g (filter ?P ?zs)) = sum_list (map (\<lambda>z. if ?P z then ?g z else 0) ?zs)"
    by (rule sum_list_map_filter')
  also have "\<dots> = sum_list (map ?g ?zs)"
    by (rule arg_cong[where f=sum_list], rule map_cong) (use zero in auto)
  also have "map ?g ?zs = map (\<lambda>(i, st). i * st) (zip (map env idxs) (strides v))"
    by (rule nth_equalityI) (use len l2 in auto)
  finally have s: "sum_list (map ?g (filter ?P ?zs))
        = sum_list (map (\<lambda>(i, st). i * st) (zip (map env idxs) (strides v)))" .
  have "eval env (View_expr_idxs v idxs off)
      = sum_list (map (eval env) (num (offset v + off) # map ?f (filter ?P ?zs)))"
    unfolding View_expr_idxs_def by (rule sum_nodes_eval)
  also have "\<dots> = (offset v + off) + sum_list (map (eval env) (map ?f (filter ?P ?zs)))"
    by (simp add: num_def)
  also have "\<dots> = (offset v + off) + sum_list (map ?g (filter ?P ?zs))"
    by (simp only: m1)
  also have "\<dots> = naive_top v (map env idxs) off"
    by (simp only: s naive_top_def)
  finally have ev: "eval env (View_expr_idxs v idxs off) = naive_top v (map env idxs) off" .
  have "list_all (node_ok env) (num (offset v + off) # map ?f (filter ?P ?zs))"
    using each by (auto simp: list_all_iff num_def)
  then have "node_ok env (View_expr_idxs v idxs off)"
    unfolding View_expr_idxs_def by (rule sum_nodes_ok)
  then show ?thesis using ev by simp
qed

text \<open>
  C1. For a tracker of the data model (a View on top, every View built by the constructor
  with dimensions at least 1, every ZeroView window with dimensions at least 1) and an
  assignment that gives each index variable a value within \<open>[0, shape[i] - 1]\<close>,
  \<open>expr_idxs\<close> returns normally and its offset expression evaluates to the naive walk:
  the top view's \<open>offset + sum of idx_i * strides[i]\<close>, fed as a linear index through
  every earlier View from second-to-top down to \<open>views[0]\<close>, ZeroViews leaving the index
  unchanged.
\<close>

theorem expr_idxs_matches_naive_walk:
  assumes top: "views st = vs @ [V v]"
    and wf: "list_all view_types_ok (views st)"
    and names: "idxs = (case idxs_opt of None \<Rightarrow> default_idxs st | Some xs \<Rightarrow> xs)"
    and len: "length idxs = length (shape v)"
    and bnd: "\<forall>i<length idxs. 0 \<le> env (idxs ! i) \<and> env (idxs ! i) \<le> shape v ! i - 1"
  shows "\<exists>e valid. expr_idxs st off idxs_opt = Inr (e, valid)
     \<and> eval env e = naive_walk (rev vs) (naive_top v (map env idxs) off)"
proof -
  have ok: "view_ok v" using wf top by simp
  have wfs: "list_all view_types_ok (rev vs)" using wf top by simp
  note t = top_expr_sound[OF ok len bnd, of off]
  obtain e valid where r: "expr_idx_loop (rev vs) (View_expr_idxs v idxs off) (num 1) = Inr (e, valid)"
    and ev: "eval env e = naive_walk (rev vs) (eval env (View_expr_idxs v idxs off))"
    using expr_idx_loop_sound[OF wfs t[THEN conjunct1], of "num 1"] by blast
  have lastv: "last (views st) = V v" using top by simp
  have ne: "views st \<noteq> []" using top by simp
  have "expr_idxs st off idxs_opt = expr_idx st (View_expr_idxs v idxs off)"
    unfolding expr_idxs_def Let_def lastv names[symmetric] using ne
    by (cases "views st") simp_all
  then have "expr_idxs st off idxs_opt = Inr (e, valid)"
    using r top by (simp add: expr_idx_def)
  then show ?thesis using ev t by auto
qed

theorem expr_idxs_matches_naive_walk_witness:
  "list_all view_types_ok
     [V \<lparr>shape = [4, 4], strides = [1, 4], offset = 0,
          shape_strides = [(4, 1), (4, 4)], contiguous = False\<rparr>,
      V \<lparr>shape = [16], strides = [1], offset = 0,
          shape_strides = [(16, 1)], contiguous = True\<rparr>]
   \<and> then_op (then_op (ShapeTracker_init [4, 4]) permute [1, 0]) reshape [16]
       = Inr \<lparr>views = [V \<lparr>shape = [4, 4], strides = [1, 4], offset = 0,
                            shape_strides = [(4, 1), (4, 4)], contiguous = False\<rparr>,
                        V \<lparr>shape = [16], strides = [1], offset = 0,
                            shape_strides = [(16, 1)], contiguous = True\<rparr>]\<rparr>
   \<and> expr_idxs \<lparr>views = [V \<lparr>shape = [4, 4], strides = [1, 4], offset = 0,
                            shape_strides = [(4, 1), (4, 4)], contiguous = False\<rparr>,
                        V \<lparr>shape = [16], strides = [1], offset = 0,
                            shape_strides = [(16, 1)], contiguous = True\<rparr>]\<rparr> 0 None
       = Inr (SumNode [MulNode (ModNode (DivNode (Variable ''idx0'' 0 15) 1) 4) 4,
                       DivNode (Variable ''idx0'' 0 15) 4], NumNode 1)
   \<and> eval (assign [(''idx0'', 6)])
        (SumNode [MulNode (ModNode (DivNode (Variable ''idx0'' 0 15) 1) 4) 4,
                  DivNode (Variable ''idx0'' 0 15) 4]) = 9
   \<and> naive_walk (rev [V \<lparr>shape = [4, 4], strides = [1, 4], offset = 0,
                            shape_strides = [(4, 1), (4, 4)], contiguous = False\<rparr>])
        (naive_top \<lparr>shape = [16], strides = [1], offset = 0,
                            shape_strides = [(16, 1)], contiguous = True\<rparr>
           (map (assign [(''idx0'', 6)]) [''idx0'']) 0) = 9"
proof -
  let ?u = "\<lparr>shape = [4, 4], strides = [1, 4], offset = 0,
               shape_strides = [(4, 1), (4, 4)], contiguous = False\<rparr>"
  let ?v = "\<lparr>shape = [16], strides = [1], offset = 0,
               shape_strides = [(16, 1)], contiguous = True\<rparr>"
  let ?st = "\<lparr>views = [V ?u, V ?v]\<rparr>"
  let ?env = "assign [(''idx0'', 6)]"
  let ?e = "SumNode [MulNode (ModNode (DivNode (Variable ''idx0'' 0 15) 1) 4) 4,
                       DivNode (Variable ''idx0'' 0 15) 4]"
  have wf: "list_all view_types_ok (views ?st)" by code_simp
  have build: "then_op (then_op (ShapeTracker_init [4, 4]) permute [1, 0]) reshape [16] = Inr ?st"
    by code_simp
  have names: "[''idx0''] = (case None of None \<Rightarrow> default_idxs ?st | Some xs \<Rightarrow> xs)"
    by code_simp
  have bnd: "\<forall>i<length [''idx0'']. 0 \<le> ?env ([''idx0''] ! i) \<and> ?env ([''idx0''] ! i) \<le> shape ?v ! i - 1"
    by (simp add: assign_def)
  have ev: "expr_idxs ?st 0 None = Inr (?e, NumNode 1)" by code_simp
  have val: "eval ?env ?e = 9" by code_simp
  have "\<exists>e valid. expr_idxs ?st 0 None = Inr (e, valid)
     \<and> eval ?env e = naive_walk (rev [V ?u]) (naive_top ?v (map ?env [''idx0'']) 0)"
    by (rule expr_idxs_matches_naive_walk[OF _ wf names _ bnd]) simp_all
  then have "naive_walk (rev [V ?u]) (naive_top ?v (map ?env [''idx0'']) 0) = 9"
    using ev val by auto
  then show ?thesis using wf build ev val by simp
qed

end
